theory Spec2Isabelle
  imports Main "HOL-Library.AList"
begin

section \<open>Python string and dictionary primitives used by the exit handler\<close>

text \<open>
  The scripts are Python. A Python \<open>str\<close> is modelled as a \<open>string\<close>, a character
  standing for the code point of its number. The handler opens its files in text mode:
  \<open>load_markup_log\<close> and \<open>write_markup_log\<close> work on the text that text mode delivers
  and takes (lines ending in the newline character \<open>0x0A\<close>), and the translation of line
  ends between that text and the stored file is \<open>read_text\<close> and \<open>write_text\<close> below,
  which the master status log update and the whole handler apply. A \<open>dict\<close> keeps its keys
  in insertion order, which the exit handler relies on when it iterates and when it
  rewrites the log, so a dictionary is an association list with distinct keys:
  \<open>d[k] = v\<close> is \<open>AList.update k v d\<close> (the value is replaced in place, a new key goes to
  the end) and a dictionary display is built entry by entry.
\<close>

definition py_dict :: "('k \<times> 'v) list \<Rightarrow> ('k \<times> 'v) list" where
  "py_dict items = fold (\<lambda>(k, v) d. AList.update k v d) items []"

definition startswith :: "string \<Rightarrow> string \<Rightarrow> bool" where
  "startswith s p = (take (length p) s = p)"

text \<open>
  \<open>s.replace(old, new)\<close>: every non-overlapping occurrence of \<open>old\<close>, found from the
  left, becomes \<open>new\<close>. With an empty \<open>old\<close> Python puts \<open>new\<close> before every character and
  at the end.
\<close>

function replace :: "string \<Rightarrow> string \<Rightarrow> string \<Rightarrow> string" where
  "replace old new s =
     (if old = [] then new @ concat (map (\<lambda>c. c # new) s)
      else if s = [] then []
      else if startswith s old then new @ replace old new (drop (length old) s)
      else hd s # replace old new (tl s))"
  by pat_completeness auto

termination
  by (relation "measure (\<lambda>(old, new, s). length s)") auto

declare replace.simps [simp del]

text \<open>
  \<open>s.strip()\<close> removes white space at both ends. A character stands for the code point of
  its number, and the white space among the code points up to 255 is: tab, line feed,
  vertical tab, form feed, carriage return, the four separators \<open>0x1C\<close> to \<open>0x1F\<close>, the
  space, the next-line character \<open>0x85\<close> and the no-break space \<open>0xA0\<close>.
\<close>

definition is_space :: "char \<Rightarrow> bool" where
  "is_space c = (c \<in> set [CHR 0x09, CHR 0x0A, CHR 0x0B, CHR 0x0C, CHR 0x0D,
                            CHR 0x1C, CHR 0x1D, CHR 0x1E, CHR 0x1F, CHR 0x20,
                            CHR 0x85, CHR 0xA0])"

definition strip :: "string \<Rightarrow> string" where
  "strip s = rev (dropWhile is_space (rev (dropWhile is_space s)))"

text \<open>\<open>s.split(sep)\<close> for a one-character separator, and \<open>s.split(sep, n)\<close> with at most
  \<open>n\<close> splits.\<close>

fun split :: "char \<Rightarrow> string \<Rightarrow> string list" where
  "split sep [] = [[]]"
| "split sep (c # cs) =
     (if c = sep then [] # split sep cs
      else (case split sep cs of [] \<Rightarrow> [[c]] | p # ps \<Rightarrow> (c # p) # ps))"

fun split_max :: "char \<Rightarrow> nat \<Rightarrow> string \<Rightarrow> string list" where
  "split_max sep 0 s = [s]"
| "split_max sep (Suc n) s =
     (if sep \<in> set s
      then takeWhile (\<lambda>c. c \<noteq> sep) s # split_max sep n (tl (dropWhile (\<lambda>c. c \<noteq> sep) s))
      else [s])"

fun join :: "string \<Rightarrow> string list \<Rightarrow> string" where
  "join sep [] = []"
| "join sep [p] = p"
| "join sep (p # q # ps) = p @ sep @ join sep (q # ps)"

text \<open>The lines of a text file, each with its newline (the last one may lack it): what
  \<open>readlines()\<close> returns and what iterating over the file yields.\<close>

fun readlines :: "string \<Rightarrow> string list" where
  "readlines [] = []"
| "readlines (c # cs) =
     (if c = CHR 0x0A then [c] # readlines cs
      else (case readlines cs of [] \<Rightarrow> [[c]] | l # ls \<Rightarrow> (c # l) # ls))"

text \<open>The exceptions that the handler can meet.\<close>

datatype py_exception =
  FileNotFoundError | OSError | KeyError | IndexError | UnboundLocalError | ValueError
  | OtherException

text \<open>
  \<open>int(s)\<close> on a string: white space around, an optional sign, then decimal digits;
  anything else raises \<open>ValueError\<close>, which is \<open>None\<close> here. The white space that \<open>int\<close>
  skips is not that of \<open>strip\<close>: among the code points up to 255 it is tab, line feed,
  vertical tab, form feed, carriage return, space, \<open>0x85\<close> and \<open>0xA0\<close>, and not the
  separators \<open>0x1C\<close> to \<open>0x1F\<close>. (The pieces handed to \<open>int\<close> come from a split at
  underscores, so Python's digit-grouping underscores cannot occur; the code points up to
  255 have no decimal digits but the ASCII ones.)

  The interpreter limits the number of digits in conversions between \<open>int\<close> and \<open>str\<close>:
  with \<open>sys.get_int_max_str_digits()\<close> at \<open>max_str_digits\<close> (4300 unless set otherwise; 0
  for no limit, which is also the behaviour of Python before 3.11; the interpreter admits
  0 and the values from 640), a conversion of more than 640 and more than
  \<open>max_str_digits\<close> digits raises \<open>ValueError\<close>, in \<open>int(s)\<close> (leading zeros counted) as in
  \<open>str(n)\<close> and in an f-string. \<open>str_nat n\<close> is the decimal numeral of \<open>n\<close>.
\<close>

definition digits :: string where
  "digits = ''0123456789''"

definition is_digit :: "char \<Rightarrow> bool" where
  "is_digit c = (c \<in> set digits)"

definition digit_val :: "char \<Rightarrow> nat" where
  "digit_val c = length (takeWhile (\<lambda>d. d \<noteq> c) digits)"

definition is_int_space :: "char \<Rightarrow> bool" where
  "is_int_space c = (c \<in> set [CHR 0x09, CHR 0x0A, CHR 0x0B, CHR 0x0C, CHR 0x0D, CHR 0x20,
                                CHR 0x85, CHR 0xA0])"

definition over_limit :: "nat \<Rightarrow> nat \<Rightarrow> bool" where
  "over_limit max_str_digits n = (640 < n \<and> 0 < max_str_digits \<and> max_str_digits < n)"

definition py_int :: "nat \<Rightarrow> string \<Rightarrow> int option" where
  "py_int max_str_digits s =
     (let t = rev (dropWhile is_int_space (rev (dropWhile is_int_space s)));
          neg = (t \<noteq> [] \<and> hd t = CHR ''-'');
          ds = (if t \<noteq> [] \<and> (hd t = CHR ''-'' \<or> hd t = CHR ''+'') then tl t else t)
      in if ds \<noteq> [] \<and> list_all is_digit ds \<and> \<not> over_limit max_str_digits (length ds)
         then Some ((if neg then - 1 else 1) * int (fold (\<lambda>c n. 10 * n + digit_val c) ds 0))
         else None)"

fun str_nat :: "nat \<Rightarrow> string" where
  "str_nat n = (if n < 10 then [digits ! n] else str_nat (n div 10) @ [digits ! (n mod 10)])"

declare str_nat.simps [simp del]

definition py_str :: "nat \<Rightarrow> nat \<Rightarrow> py_exception + string" where
  "py_str max_str_digits n =
     (if over_limit max_str_digits (length (str_nat n)) then Inl ValueError
      else Inr (str_nat n))"

section \<open>Sanitising file names: \<open>encode_filename\<close> and \<open>decode_filename\<close>\<close>

text \<open>
  Both functions build a dictionary display and apply \<open>str.replace\<close> once per item, in the
  dictionary's order. The display of \<open>encode_filename\<close> lists the double quote (\<open>0x22\<close>)
  twice, first with \<open>_W_\<close> and last with \<open>_E_\<close>: Python keeps the first position and the
  last value. The backslash is \<open>0x5C\<close> and NUL is \<open>0x00\<close>.
\<close>

definition encode_replacements :: "(string \<times> string) list" where
  "encode_replacements = py_dict
     [(''/'', ''_S_''), ([CHR 0x5C], ''_B_''), ('':'', ''_C_''), (''*'', ''_A_''),
      (''?'', ''_Q_''), ([CHR 0x22], ''_W_''), (''<'', ''_L_''), (''>'', ''_G_''),
      (''|'', ''_P_''), ([CHR 0x00], ''_N_''), ('' '', ''_U_''), ('','', ''_Z_''),
      ([CHR 0x22], ''_E_'')]"

definition encode_filename :: "string \<Rightarrow> string" where
  "encode_filename name = fold (\<lambda>(ch, code) nm. replace ch code nm) encode_replacements name"

definition decode_replacements :: "(string \<times> string) list" where
  "decode_replacements = py_dict
     [(''_S_'', ''/''), (''_B_'', [CHR 0x5C]), (''_C_'', '':''), (''_A_'', ''*''),
      (''_Q_'', ''?''), (''_W_'', [CHR 0x22]), (''_L_'', ''<''), (''_G_'', ''>''),
      (''_P_'', ''|''), (''_N_'', [CHR 0x00]), (''_U_'', '' ''), (''_Z_'', '',''),
      (''_E_'', [CHR 0x22])]"

definition decode_filename :: "string \<Rightarrow> string" where
  "decode_filename encoded_name =
     fold (\<lambda>(code, ch) nm. replace code ch nm) decode_replacements encoded_name"

section \<open>The master status log\<close>

text \<open>
  The last part of \<open>onAppExit\<close> (the same in the CSV scripts for macOS and for Windows)
  rewrites the file given as \<open>--log_csv\<close>: each line that starts with the report number and
  a comma is stripped, split at the commas, padded to three fields by the \<open>while\<close> loop and
  gets its third field replaced; every other line is written as it is. The lines go to
  \<open>log_csv + ".tmp"\<close>, which \<open>os.replace\<close> then moves over the log. The whole is in a
  \<open>try\<close> whose handler prints the failure.
\<close>

function pad_parts :: "string list \<Rightarrow> string list" where
  "pad_parts parts = (if length parts < 3 then pad_parts (parts @ [[]]) else parts)"
  by pat_completeness auto

termination
  by (relation "measure (\<lambda>parts. 3 - length parts)") auto

declare pad_parts.simps [simp del]

definition stripped_fields :: "string \<Rightarrow> string list" where
  "stripped_fields line = pad_parts (split CHR '','' (strip line))"

definition rewrite_line :: "string \<Rightarrow> string \<Rightarrow> string \<Rightarrow> string" where
  "rewrite_line report_number done_status line =
     (if startswith line (report_number @ '','')
      then join '','' ((stripped_fields line)[2 := done_status]) @ [CHR 0x0A]
      else line)"

definition done_status :: "'node list \<Rightarrow> string" where
  "done_status final_markup_nodes = (if length final_markup_nodes > 0 then ''True'' else '''')"

text \<open>
  Both files are opened in text mode with the default newline handling. On reading, the
  line ends \<open>CR LF\<close> and \<open>CR\<close> are delivered as \<open>LF\<close>; on writing, every \<open>LF\<close> becomes
  \<open>os.linesep\<close>, which is \<open>LF\<close> on macOS and Linux and \<open>CR LF\<close> on Windows.
\<close>

fun read_text :: "string \<Rightarrow> string" where
  "read_text [] = []"
| "read_text [c] = (if c = CHR 0x0D then [CHR 0x0A] else [c])"
| "read_text (c # d # cs) =
     (if c = CHR 0x0D
      then CHR 0x0A # (if d = CHR 0x0A then read_text cs else read_text (d # cs))
      else c # read_text (d # cs))"

datatype platform = Posix | Windows

fun linesep :: "platform \<Rightarrow> string" where
  "linesep Posix = [CHR 0x0A]"
| "linesep Windows = [CHR 0x0D, CHR 0x0A]"

definition write_text :: "platform \<Rightarrow> string \<Rightarrow> string" where
  "write_text os s = concat (map (\<lambda>c. if c = CHR 0x0A then linesep os else [c]) s)"

text \<open>
  Files are a map from paths to contents (the characters as they are stored, line ends
  included). What can go wrong inside the \<open>try\<close> is given by a fault: opening the temporary
  file fails, the write (or read) of line \<open>k\<close> fails, or the rename fails; a log that is not
  there makes the first \<open>open\<close> raise. The body returns the exception it raised, if any, and
  the files as it left them.
\<close>

datatype io_fault = NoFault | OpenTempFails | WriteFails nat | ReplaceFails

definition update_body ::
  "io_fault \<Rightarrow> platform \<Rightarrow> string \<Rightarrow> string \<Rightarrow> string \<Rightarrow> (string \<rightharpoonup> string)
     \<Rightarrow> py_exception option \<times> (string \<rightharpoonup> string)" where
  "update_body fault os log_csv report_number ds fs =
     (let temp_csv = log_csv @ ''.tmp'' in
      case fs log_csv of
        None \<Rightarrow> (Some FileNotFoundError, fs)
      | Some stored \<Rightarrow>
          if fault = OpenTempFails then (Some OSError, fs)
          else
            let out = map (rewrite_line report_number ds) (readlines (read_text stored));
                written = (case fault of WriteFails k \<Rightarrow> min k (length out) | _ \<Rightarrow> length out);
                fs1 = fs(temp_csv \<mapsto> write_text os (concat (take written out)))
            in if written < length out \<or> fault = ReplaceFails then (Some OSError, fs1)
               else (None, (fs1(temp_csv := None))(log_csv \<mapsto> write_text os (concat out))))"

record update_result =
  files_after :: "string \<rightharpoonup> string"
  printed :: string

definition update_report_log ::
  "io_fault \<Rightarrow> platform \<Rightarrow> string \<Rightarrow> string \<Rightarrow> 'node list \<Rightarrow> (string \<rightharpoonup> string)
     \<Rightarrow> py_exception + update_result" where
  "update_report_log fault os log_csv report_number final_markup_nodes fs =
     (let ds = done_status final_markup_nodes in
      case update_body fault os log_csv report_number ds fs of
        (None, fs') \<Rightarrow>
          Inr \<lparr>files_after = fs',
               printed = ''Updated log for report '' @ report_number @ '' to Done=''
                           @ (if ds \<noteq> [] then ds else ''Empty'')\<rparr>
      | (Some e, fs') \<Rightarrow> Inr \<lparr>files_after = fs', printed = ''Failed to update log file''\<rparr>)"

section \<open>The markup log and its reconciliation with the scene\<close>

text \<open>
  \<open>onAppExit\<close> loads the markup log of the source folder, saves every markup node of the
  scene (under the file name the log already has for it, or under a new numbered one),
  marks the log entries whose file name no node used as deleted, and writes the log back.
  The script for macOS keeps the log as CSV (\<open>annotation_mac\<close>); a second one keeps it as an
  XLSX workbook (\<open>annotation_mac_xlsx\<close>).
\<close>

subsection \<open>The CSV log\<close>

record log_entry =
  created_at :: string
  content :: string
  deleted_at :: string

type_synonym markup_log = "(string \<times> log_entry) list"

text \<open>The loader skips the header line, strips each line, splits it at the first three
  commas and keeps the lines that give four parts; a file name met again replaces the
  earlier entry. A missing file gives the empty log.\<close>

definition parse_log_line :: "string \<Rightarrow> markup_log \<Rightarrow> markup_log" where
  "parse_log_line line log =
     (let parts = split_max CHR '','' 3 (strip line)
      in if length parts \<ge> 4
         then AList.update (parts ! 0)
                \<lparr>created_at = parts ! 1, content = parts ! 2, deleted_at = parts ! 3\<rparr> log
         else log)"

definition load_markup_log :: "string option \<Rightarrow> markup_log" where
  "load_markup_log file =
     (case file of
        None \<Rightarrow> []
      | Some contents \<Rightarrow> fold parse_log_line (drop 1 (readlines contents)) [])"

text \<open>The writer puts the content between double quotes (\<open>0x22\<close>).\<close>

definition write_markup_log :: "markup_log \<Rightarrow> string" where
  "write_markup_log log =
     ''filename,created_at,content,deleted_at'' @ [CHR 0x0A]
     @ concat (map (\<lambda>(fname, data).
          fname @ '','' @ created_at data @ '','' @ [CHR 0x22] @ content data @ [CHR 0x22]
            @ '','' @ deleted_at data @ [CHR 0x0A]) log)"

subsection \<open>Nodes, the state of the exit handler, numbering\<close>

text \<open>
  A markup node is what the scene gives: its name, its class name and what happens when it
  is saved. \<open>Saved s\<close>: \<open>saveNode\<close> returned true and the file reads back as JSON that
  \<open>json.dumps\<close> renders as \<open>s\<close>; \<open>SaveFailed\<close>: it returned false; the other two: an
  \<open>OSError\<close> or another exception was raised inside the \<open>try\<close>.

  The state holds the variables of the handler: the log, \<open>max_number\<close>, the set
  \<open>current_filenames\<close>, and the names of the files in the source folder. A file that
  \<open>saveNode\<close> wrote successfully is in the folder afterwards; what a failed save leaves
  behind is not modelled.
\<close>

datatype save_outcome = Saved string | SaveFailed | SaveRaisedOSError | SaveRaisedOther

record markup_node =
  node_name :: string
  node_class :: string
  node_save :: save_outcome

record 'e exit_state =
  markup_log :: "(string \<times> 'e) list"
  max_number :: nat
  current_filenames :: "string set"
  folder_files :: "string set"

text \<open>The number at the end of a logged file name, \<open>int(markup.replace(".json",
  "").split("_")[-1])\<close>, and the loop that finds the largest one (starting from 0; a name
  on which \<open>int\<close> raises \<open>ValueError\<close> is passed over). The CSV script guards the loop with
  a test for the empty log. A new file name is the f-string \<open>f"{base}_{max_number}.json"\<close>,
  which raises when \<open>max_number\<close> has too many digits.\<close>

definition number_part :: "nat \<Rightarrow> string \<Rightarrow> int option" where
  "number_part max_str_digits markup =
     py_int max_str_digits (last (split CHR ''_'' (replace ''.json'' '''' markup)))"

definition highest_number :: "nat \<Rightarrow> string list \<Rightarrow> nat" where
  "highest_number max_str_digits keys =
     fold (\<lambda>markup mx. case number_part max_str_digits markup of
                           Some n \<Rightarrow> if n > int mx then nat n else mx
                         | None \<Rightarrow> mx) keys 0"

definition last_number :: "nat \<Rightarrow> string list \<Rightarrow> nat" where
  "last_number max_str_digits keys =
     (if length keys \<noteq> 0 then highest_number max_str_digits keys else 0)"

definition numbered_name :: "nat \<Rightarrow> string \<Rightarrow> nat \<Rightarrow> py_exception + string" where
  "numbered_name max_str_digits base n =
     (case py_str max_str_digits n of
        Inl e \<Rightarrow> Inl e
      | Inr s \<Rightarrow> Inr (base @ ''_'' @ s @ ''.json''))"

subsection \<open>Saving the nodes: the CSV script\<close>

text \<open>
  The node's name is encoded; the first logged file name equal to it plus \<open>.json\<close> is the
  existing file (\<open>if existing_file:\<close> tests that it is there and not empty). Otherwise
  \<open>max_number\<close> is incremented and the name is \<open><encoded name>_<max_number>.json\<close>; a
  \<open>ValueError\<close> of that f-string is outside every \<open>try\<close> and ends the handler. The name
  goes into \<open>current_filenames\<close> whatever the save does; the log changes only when the save
  succeeded: a name not yet in the log gets a new entry, a name in the log has its content
  replaced and its \<open>deleted_at\<close> cleared (\<open>save_node_csv\<close>, the rest of the loop body).
\<close>

definition existing_file_csv :: "markup_log \<Rightarrow> string \<Rightarrow> string option" where
  "existing_file_csv log encoded_node_name =
     List.find (\<lambda>fname. fname = encoded_node_name @ ''.json'') (map fst log)"

definition choose_name_csv ::
  "nat \<Rightarrow> log_entry exit_state \<Rightarrow> markup_node \<Rightarrow> py_exception + string \<times> nat" where
  "choose_name_csv max_str_digits st node =
     (let encoded_node_name = encode_filename (node_name node);
          existing_file = existing_file_csv (markup_log st) encoded_node_name;
          numbered = (case numbered_name max_str_digits encoded_node_name (max_number st + 1) of
                        Inl e \<Rightarrow> Inl e
                      | Inr safe_name \<Rightarrow> Inr (safe_name, max_number st + 1))
      in case existing_file of
           Some f \<Rightarrow> if f \<noteq> [] then Inr (f, max_number st) else numbered
         | None \<Rightarrow> numbered)"

definition json_content :: "string \<Rightarrow> string" where
  "json_content dumped = replace '','' '';'' (replace [CHR 0x0A] '''' dumped)"

definition save_node_csv ::
  "string \<Rightarrow> log_entry exit_state \<Rightarrow> markup_node \<Rightarrow> string \<Rightarrow> nat \<Rightarrow> log_entry exit_state" where
  "save_node_csv now_str st node safe_name mx =
     (let st1 = st\<lparr>max_number := mx,
                   current_filenames := insert safe_name (current_filenames st)\<rparr>
      in case node_save node of
           Saved dumped \<Rightarrow>
             st1\<lparr>folder_files := insert safe_name (folder_files st1),
                 markup_log :=
                   (if safe_name \<notin> set (map fst (markup_log st1))
                    then AList.update safe_name
                           \<lparr>created_at = now_str, content = json_content dumped, deleted_at = ''''\<rparr>
                           (markup_log st1)
                    else AList.map_entry safe_name
                           (\<lambda>e. e\<lparr>content := json_content dumped, deleted_at := ''''\<rparr>)
                           (markup_log st1))\<rparr>
         | _ \<Rightarrow> st1)"

definition save_markup_csv ::
  "nat \<Rightarrow> string \<Rightarrow> log_entry exit_state \<Rightarrow> markup_node
     \<Rightarrow> py_exception + log_entry exit_state" where
  "save_markup_csv max_str_digits now_str st node =
     (case choose_name_csv max_str_digits st node of
        Inl e \<Rightarrow> Inl e
      | Inr (safe_name, mx) \<Rightarrow> Inr (save_node_csv now_str st node safe_name mx))"

fun save_all_csv ::
  "nat \<Rightarrow> string \<Rightarrow> markup_node list \<Rightarrow> log_entry exit_state
     \<Rightarrow> py_exception + log_entry exit_state" where
  "save_all_csv max_str_digits now_str [] st = Inr st"
| "save_all_csv max_str_digits now_str (node # nodes) st =
     (case save_markup_csv max_str_digits now_str st node of
        Inl e \<Rightarrow> Inl e
      | Inr st' \<Rightarrow> save_all_csv max_str_digits now_str nodes st')"

definition initial_csv :: "nat \<Rightarrow> markup_log \<Rightarrow> string set \<Rightarrow> log_entry exit_state" where
  "initial_csv max_str_digits log files =
     \<lparr>markup_log = log, max_number = last_number max_str_digits (map fst log),
      current_filenames = {}, folder_files = files\<rparr>"

definition after_saves_csv ::
  "nat \<Rightarrow> string \<Rightarrow> markup_node list \<Rightarrow> markup_log \<Rightarrow> string set
     \<Rightarrow> py_exception + log_entry exit_state" where
  "after_saves_csv max_str_digits now_str nodes log files =
     save_all_csv max_str_digits now_str nodes (initial_csv max_str_digits log files)"

subsection \<open>Detecting deleted markups\<close>

text \<open>
  The same loop in both scripts, up to the test for an unset \<open>deleted_at\<close> and the way the
  time stamp is stored. \<open>deleted_files\<close> is the set difference of the log's keys and
  \<open>current_filenames\<close>; Python iterates over it in no particular order, here the order of
  the log is taken (the entries do not depend on each other). For each file: it is removed
  if it exists, then \<open>deleted_at\<close> is set if it was unset. Both are inside one \<open>try\<close>, so
  an \<open>os.remove\<close> that raises (the files in \<open>locked\<close>) leaves the entry as it is.
\<close>

definition mark_deleted ::
  "('e \<Rightarrow> bool) \<Rightarrow> ('e \<Rightarrow> 'e) \<Rightarrow> string set \<Rightarrow> string
     \<Rightarrow> ('e, 'z) exit_state_scheme \<Rightarrow> ('e, 'z) exit_state_scheme" where
  "mark_deleted unset stamp locked deleted_file st =
     (if deleted_file \<in> folder_files st \<and> deleted_file \<in> locked then st
      else st\<lparr>folder_files := folder_files st - {deleted_file},
              markup_log :=
                (case map_of (markup_log st) deleted_file of
                   None \<Rightarrow> markup_log st
                 | Some e \<Rightarrow> if unset e then AList.map_entry deleted_file stamp (markup_log st)
                             else markup_log st)\<rparr>)"

definition deleted_files :: "('e, 'z) exit_state_scheme \<Rightarrow> string list" where
  "deleted_files st = filter (\<lambda>f. f \<notin> current_filenames st) (map fst (markup_log st))"

definition detect_deleted ::
  "('e \<Rightarrow> bool) \<Rightarrow> ('e \<Rightarrow> 'e) \<Rightarrow> string set
     \<Rightarrow> ('e, 'z) exit_state_scheme \<Rightarrow> ('e, 'z) exit_state_scheme" where
  "detect_deleted unset stamp locked st =
     fold (mark_deleted unset stamp locked) (deleted_files st) st"

definition detect_deleted_csv ::
  "string \<Rightarrow> string set \<Rightarrow> log_entry exit_state \<Rightarrow> log_entry exit_state" where
  "detect_deleted_csv now_str locked st =
     detect_deleted (\<lambda>e. deleted_at e = '''') (\<lambda>e. e\<lparr>deleted_at := now_str\<rparr>) locked st"

definition reconcile_csv ::
  "nat \<Rightarrow> string \<Rightarrow> string set \<Rightarrow> markup_node list \<Rightarrow> markup_log \<Rightarrow> string set
     \<Rightarrow> py_exception + log_entry exit_state" where
  "reconcile_csv max_str_digits now_str locked nodes log files =
     (case save_all_csv max_str_digits now_str nodes (initial_csv max_str_digits log files) of
        Inl e \<Rightarrow> Inl e
      | Inr st \<Rightarrow> Inr (detect_deleted_csv now_str locked st))"

subsection \<open>The XLSX script\<close>

text \<open>
  The log entries have other fields, and a cell may be empty (\<open>None\<close>). A node's name is
  stripped and compared with the logged file names without their \<open>.json\<close>. A new name is
  \<open><markup type>_<max_number>.json\<close>, the type coming from the node's class; for a class
  that is none of the three the variable \<open>markup_type\<close> keeps the value of an earlier
  iteration, and is unbound in the first one (\<open>UnboundLocalError\<close>, which nothing catches,
  as nothing catches the \<open>ValueError\<close> of a number with too many digits).
  An existing entry is not touched; a new one is added unless \<open>saveNode\<close> raises
  \<open>OSError\<close>, in which case the node goes to the error log (its \<open>json_content\<close> column
  is left out here). Any other exception leaves the handler.
\<close>

record xlsx_entry =
  report_content :: "string option"
  original_filename :: "string option"
  created_at_x :: "string option"
  deleted_at_x :: "string option"

type_synonym xlsx_log = "(string \<times> xlsx_entry) list"

record xlsx_state = "xlsx_entry exit_state" +
  markup_type :: "string option"
  markup_error :: xlsx_log

definition existing_file_xlsx :: "xlsx_log \<Rightarrow> string \<Rightarrow> string option" where
  "existing_file_xlsx log name =
     List.find (\<lambda>fname. replace ''.json'' '''' fname = name) (map fst log)"

definition hit_xlsx :: "xlsx_state \<Rightarrow> markup_node \<Rightarrow> bool" where
  "hit_xlsx st node =
     (case existing_file_xlsx (markup_log st) (strip (node_name node)) of
        Some f \<Rightarrow> f \<noteq> [] | None \<Rightarrow> False)"

definition markup_type_of :: "string \<Rightarrow> string option \<Rightarrow> string option" where
  "markup_type_of class_name previous =
     (if class_name = ''vtkMRMLMarkupsFiducialNode'' then Some ''point''
      else if class_name = ''vtkMRMLMarkupsLineNode'' then Some ''line''
      else if class_name = ''vtkMRMLMarkupsROINode'' then Some ''roi''
      else previous)"

definition new_entry_xlsx :: "string \<Rightarrow> string \<Rightarrow> xlsx_entry" where
  "new_entry_xlsx now_str name =
     \<lparr>report_content = Some name, original_filename = None,
      created_at_x = Some now_str, deleted_at_x = None\<rparr>"

definition save_existing_xlsx ::
  "string \<Rightarrow> string \<Rightarrow> markup_node \<Rightarrow> xlsx_state \<Rightarrow> py_exception + xlsx_state" where
  "save_existing_xlsx now_str safe_name node st =
     (let st1 = st\<lparr>current_filenames := insert safe_name (current_filenames st)\<rparr>
      in case node_save node of
           Saved dumped \<Rightarrow> Inr (st1\<lparr>folder_files := insert safe_name (folder_files st1)\<rparr>)
         | SaveFailed \<Rightarrow> Inr st1
         | SaveRaisedOSError \<Rightarrow>
             Inr (st1\<lparr>markup_error :=
                        AList.update safe_name (new_entry_xlsx now_str (strip (node_name node)))
                          (markup_error st1)\<rparr>)
         | SaveRaisedOther \<Rightarrow> Inl OtherException)"

definition save_new_xlsx ::
  "nat \<Rightarrow> string \<Rightarrow> markup_node \<Rightarrow> xlsx_state \<Rightarrow> py_exception + xlsx_state" where
  "save_new_xlsx max_str_digits now_str node st =
     (case markup_type_of (node_class node) (markup_type st) of
        None \<Rightarrow> Inl UnboundLocalError
      | Some t \<Rightarrow>
          (case numbered_name max_str_digits t (max_number st + 1) of
             Inl e \<Rightarrow> Inl e
           | Inr safe_name \<Rightarrow>
               (let entry = new_entry_xlsx now_str (strip (node_name node));
                    st1 = st\<lparr>max_number := max_number st + 1,
                             current_filenames := insert safe_name (current_filenames st),
                             markup_type := Some t\<rparr>
                in case node_save node of
                     Saved dumped \<Rightarrow>
                       Inr (st1\<lparr>folder_files := insert safe_name (folder_files st1),
                                markup_log := AList.update safe_name entry (markup_log st1)\<rparr>)
                   | SaveFailed \<Rightarrow>
                       Inr (st1\<lparr>markup_log := AList.update safe_name entry (markup_log st1)\<rparr>)
                   | SaveRaisedOSError \<Rightarrow>
                       Inr (st1\<lparr>markup_error := AList.update safe_name entry (markup_error st1)\<rparr>)
                   | SaveRaisedOther \<Rightarrow> Inl OtherException)))"

definition save_markup_xlsx ::
  "nat \<Rightarrow> string \<Rightarrow> markup_node \<Rightarrow> xlsx_state \<Rightarrow> py_exception + xlsx_state" where
  "save_markup_xlsx max_str_digits now_str node st =
     (case existing_file_xlsx (markup_log st) (strip (node_name node)) of
        Some f \<Rightarrow> if f \<noteq> [] then save_existing_xlsx now_str f node st
                   else save_new_xlsx max_str_digits now_str node st
      | None \<Rightarrow> save_new_xlsx max_str_digits now_str node st)"

fun save_all_xlsx ::
  "nat \<Rightarrow> string \<Rightarrow> markup_node list \<Rightarrow> xlsx_state \<Rightarrow> py_exception + xlsx_state" where
  "save_all_xlsx max_str_digits now_str [] st = Inr st"
| "save_all_xlsx max_str_digits now_str (node # nodes) st =
     (case save_markup_xlsx max_str_digits now_str node st of
        Inl e \<Rightarrow> Inl e
      | Inr st' \<Rightarrow> save_all_xlsx max_str_digits now_str nodes st')"

definition initial_xlsx :: "nat \<Rightarrow> xlsx_log \<Rightarrow> string set \<Rightarrow> xlsx_state" where
  "initial_xlsx max_str_digits log files =
     \<lparr>markup_log = log, max_number = highest_number max_str_digits (map fst log),
      current_filenames = {}, folder_files = files,
      markup_type = None, markup_error = []\<rparr>"

definition after_saves_xlsx ::
  "nat \<Rightarrow> string \<Rightarrow> markup_node list \<Rightarrow> xlsx_log \<Rightarrow> string set
     \<Rightarrow> py_exception + xlsx_state" where
  "after_saves_xlsx max_str_digits now_str nodes log files =
     save_all_xlsx max_str_digits now_str nodes (initial_xlsx max_str_digits log files)"

definition detect_deleted_xlsx :: "string \<Rightarrow> string set \<Rightarrow> xlsx_state \<Rightarrow> xlsx_state" where
  "detect_deleted_xlsx now_str locked st =
     detect_deleted (\<lambda>e. deleted_at_x e = None \<or> deleted_at_x e = Some '''')
       (\<lambda>e. e\<lparr>deleted_at_x := Some now_str\<rparr>) locked st"

definition reconcile_xlsx ::
  "nat \<Rightarrow> string \<Rightarrow> string set \<Rightarrow> markup_node list \<Rightarrow> xlsx_log \<Rightarrow> string set
     \<Rightarrow> py_exception + xlsx_state" where
  "reconcile_xlsx max_str_digits now_str locked nodes log files =
     (case save_all_xlsx max_str_digits now_str nodes (initial_xlsx max_str_digits log files) of
        Inl e \<Rightarrow> Inl e
      | Inr st \<Rightarrow> Inr (detect_deleted_xlsx now_str locked st))"

text \<open>
  The workbook is read as rows of cells, the first row holding the column names (\<open>ws[1]\<close>
  raises \<open>IndexError\<close> on a sheet without rows). A row with an empty first cell is skipped;
  the four fields are looked up by column name (\<open>KeyError\<close> when a name is missing).
\<close>

definition header_index :: "string option list \<Rightarrow> (string option \<times> nat) list" where
  "header_index header = py_dict (zip header [0..<length header])"

definition cell_of ::
  "(string option \<times> nat) list \<Rightarrow> string option list \<Rightarrow> string
     \<Rightarrow> py_exception + string option" where
  "cell_of headers row column =
     (case map_of headers (Some column) of
        None \<Rightarrow> Inl KeyError
      | Some i \<Rightarrow> if i < length row then Inr (row ! i) else Inl IndexError)"

definition load_row_xlsx ::
  "(string option \<times> nat) list \<Rightarrow> string option list \<Rightarrow> xlsx_log \<Rightarrow> py_exception + xlsx_log" where
  "load_row_xlsx headers row log =
     (case row of
        [] \<Rightarrow> Inl IndexError
      | first # _ \<Rightarrow>
          (case first of
             None \<Rightarrow> Inr log
           | Some fname \<Rightarrow>
               if fname = [] then Inr log
               else (case cell_of headers row ''report_content'' of Inl e \<Rightarrow> Inl e | Inr rc \<Rightarrow>
                     case cell_of headers row ''original_filename'' of Inl e \<Rightarrow> Inl e | Inr orig \<Rightarrow>
                     case cell_of headers row ''created_at'' of Inl e \<Rightarrow> Inl e | Inr ca \<Rightarrow>
                     case cell_of headers row ''deleted_at'' of Inl e \<Rightarrow> Inl e | Inr da \<Rightarrow>
                       Inr (AList.update fname
                              \<lparr>report_content = rc, original_filename = orig,
                               created_at_x = ca, deleted_at_x = da\<rparr> log))))"

fun load_rows_xlsx ::
  "(string option \<times> nat) list \<Rightarrow> string option list list \<Rightarrow> xlsx_log \<Rightarrow> py_exception + xlsx_log" where
  "load_rows_xlsx headers [] log = Inr log"
| "load_rows_xlsx headers (row # rows) log =
     (case load_row_xlsx headers row log of
        Inl e \<Rightarrow> Inl e
      | Inr log' \<Rightarrow> load_rows_xlsx headers rows log')"

definition load_markup_log_xlsx :: "string option list list option \<Rightarrow> py_exception + xlsx_log" where
  "load_markup_log_xlsx workbook =
     (case workbook of
        None \<Rightarrow> Inr []
      | Some [] \<Rightarrow> Inl IndexError
      | Some (header # rows) \<Rightarrow> load_rows_xlsx (header_index header) rows [])"

subsection \<open>The whole handler\<close>

text \<open>
  The CSV script: load, reconcile, write the log, update the master status log; the log
  file is read and written as text, like the master status log. The XLSX script: load,
  reconcile, and save the log as rows; \<open>wb.save\<close> stands inside the loop over the entries,
  so an empty log saves nothing (\<open>None\<close>). It does not touch the master status log. In both
  scripts an exception that nothing catches ends the handler before any file is removed or
  written.
\<close>

record exit_result_csv =
  final_state :: "log_entry exit_state"
  markup_log_file :: string
  master :: update_result

definition onAppExit_csv ::
  "nat \<Rightarrow> platform \<Rightarrow> string \<Rightarrow> string set \<Rightarrow> markup_node list \<Rightarrow> string option \<Rightarrow> string set
     \<Rightarrow> io_fault \<Rightarrow> string \<Rightarrow> string \<Rightarrow> (string \<rightharpoonup> string)
     \<Rightarrow> py_exception + exit_result_csv" where
  "onAppExit_csv max_str_digits os now_str locked final_markup_nodes log_file files
       fault log_csv report_number fs =
     (case reconcile_csv max_str_digits now_str locked final_markup_nodes
             (load_markup_log (map_option read_text log_file)) files of
        Inl e \<Rightarrow> Inl e
      | Inr st \<Rightarrow>
          (case update_report_log fault os log_csv report_number final_markup_nodes fs of
             Inl e \<Rightarrow> Inl e
           | Inr r \<Rightarrow>
               Inr \<lparr>final_state = st,
                    markup_log_file = write_text os (write_markup_log (markup_log st)),
                    master = r\<rparr>))"

definition rows_of_log :: "xlsx_log \<Rightarrow> string option list list" where
  "rows_of_log log =
     [Some ''filename'', Some ''report_content'', Some ''original_filename'',
      Some ''created_at'', Some ''deleted_at'']
     # map (\<lambda>(filename, details).
              [Some filename, report_content details, original_filename details,
               created_at_x details, deleted_at_x details]) log"

definition onAppExit_xlsx ::
  "nat \<Rightarrow> string \<Rightarrow> string set \<Rightarrow> markup_node list \<Rightarrow> string option list list option
     \<Rightarrow> string set \<Rightarrow> py_exception + xlsx_state \<times> string option list list option" where
  "onAppExit_xlsx max_str_digits now_str locked final_markup_nodes workbook files =
     (case load_markup_log_xlsx workbook of
        Inl e \<Rightarrow> Inl e
      | Inr log \<Rightarrow>
          (case reconcile_xlsx max_str_digits now_str locked final_markup_nodes log files of
             Inl e \<Rightarrow> Inl e
           | Inr st \<Rightarrow>
               Inr (st, if markup_log st = [] then None else Some (rows_of_log (markup_log st)))))"

section \<open>Notions used in the statements and proofs\<close>

subsection \<open>File names\<close>

text \<open>The characters the encoding is meant to remove, and the escape code the table gives
  to one character (the character itself when the table has no entry for it).\<close>

definition special_chars :: "char set" where
  "special_chars = {CHR ''/'', CHR 0x5C, CHR '':'', CHR ''*'', CHR ''?'', CHR 0x22,
                    CHR ''<'', CHR ''>'', CHR ''|'', CHR 0x00, CHR '' '', CHR '',''}"

definition escape_char :: "char \<Rightarrow> string" where
  "escape_char c = (case map_of encode_replacements [c] of Some code \<Rightarrow> code | None \<Rightarrow> [c])"

text \<open>
  The letters of the escape codes. In an encoded name an underscore comes from an underscore
  of the name or from the escape code of a special character; a code letter of the name
  that stands directly between two such characters reads as an escape code in the encoded
  name. \<open>roundtrip_safe\<close>: the name has no code letter in that position.
\<close>

definition code_letters :: "char set" where
  "code_letters = set ''SBCAQWLGPNUZE''"

definition separator :: "char \<Rightarrow> bool" where
  "separator c = (c = CHR ''_'' \<or> c \<in> special_chars)"

fun roundtrip_safe :: "string \<Rightarrow> bool" where
  "roundtrip_safe [] = True"
| "roundtrip_safe (c # cs) =
     (\<not> (separator c \<and>
             (case cs of y # s # _ \<Rightarrow> y \<in> code_letters \<and> separator s | _ \<Rightarrow> False))
      \<and> roundtrip_safe cs)"

text \<open>
  For the proof, an encoded name is read as a list of symbols: a plain character or an
  escape code \<open>_x_\<close>. Decoding one code is a substitution on symbols, as long as no plain
  code letter stands between two symbols that bring an underscore (a plain underscore or
  an escape code).
\<close>

datatype sym = Raw char | Code char

fun render1 :: "sym \<Rightarrow> string" where
  "render1 (Raw c) = [c]"
| "render1 (Code x) = [CHR ''_'', x, CHR ''_'']"

definition render :: "sym list \<Rightarrow> string" where
  "render xs = concat (map render1 xs)"

fun subst :: "char \<Rightarrow> char \<Rightarrow> sym \<Rightarrow> sym" where
  "subst y ch (Raw c) = Raw c"
| "subst y ch (Code x) = (if x = y then Raw ch else Code x)"

fun sep_sym :: "sym \<Rightarrow> bool" where
  "sep_sym (Raw c) = (c = CHR ''_'')"
| "sep_sym (Code x) = True"

fun bad_start :: "sym list \<Rightarrow> bool" where
  "bad_start (Raw y # s # _) = (y \<in> code_letters \<and> sep_sym s)"
| "bad_start _ = False"

fun good :: "sym list \<Rightarrow> bool" where
  "good [] = True"
| "good (Raw c # xs) = ((c = CHR ''_'' \<longrightarrow> \<not> bad_start xs) \<and> good xs)"
| "good (Code x # xs) = (x \<in> code_letters \<and> \<not> bad_start xs \<and> good xs)"

definition sym_of :: "char \<Rightarrow> sym" where
  "sym_of c = (if c \<in> special_chars then Code (escape_char c ! 1) else Raw c)"

definition decode_sym :: "sym \<Rightarrow> sym" where
  "decode_sym = fold (\<lambda>(code, ch). subst (code ! 1) (hd ch)) decode_replacements"

definition decode_pair_ok :: "string \<times> string \<Rightarrow> bool" where
  "decode_pair_ok p = (case p of (code, ch) \<Rightarrow>
     length code = 3 \<and> code ! 0 = CHR ''_'' \<and> code ! 2 = CHR ''_'' \<and> code ! 1 \<in> code_letters
     \<and> length ch = 1 \<and> hd ch \<notin> code_letters \<and> hd ch \<noteq> CHR ''_'')"

subsection \<open>Lines of the master status log\<close>

text \<open>Well-formed lines: non-empty, a newline only at the end, and there in every line
  but the last.\<close>

fun lines_ok :: "string list \<Rightarrow> bool" where
  "lines_ok [] = True"
| "lines_ok [l] = (l \<noteq> [] \<and> CHR 0x0A \<notin> set (butlast l))"
| "lines_ok (l # m # ls) =
     (l \<noteq> [] \<and> CHR 0x0A \<notin> set (butlast l) \<and> last l = CHR 0x0A \<and> lines_ok (m # ls))"

text \<open>A master status log with its header and two reports not yet done.\<close>

definition example_master_log :: string where
  "example_master_log = ''Report,Path,Done'' @ [CHR 0x0A] @ ''5,p,'' @ [CHR 0x0A] @ ''6,q,'' @ [CHR 0x0A]"

subsection \<open>States and logs of the exit handler\<close>

text \<open>Every file name in the log or already used at this exit carries a number that is
  at most \<open>max_number\<close>.\<close>

definition numbered :: "nat \<Rightarrow> ('e, 'z) exit_state_scheme \<Rightarrow> bool" where
  "numbered max_str_digits st =
     (\<forall>f \<in> set (map fst (markup_log st)) \<union> current_filenames st.
        \<forall>m. number_part max_str_digits f = Some m \<longrightarrow> m \<le> int (max_number st))"

text \<open>
  \<open>writable\<close>: the number can be written within the digit limit. \<open>csv_fits\<close>: the node has
  an existing file or the next number can be written, so that the turn of the CSV loop for
  this node does not raise. \<open>csv_name\<close> and \<open>csv_step\<close>: the name chosen and the state
  reached by such a turn; \<open>csv_steps\<close>: the state after several such turns.
\<close>

definition writable :: "nat \<Rightarrow> nat \<Rightarrow> bool" where
  "writable max_str_digits n = (\<not> over_limit max_str_digits (length (str_nat n)))"

definition csv_fits :: "nat \<Rightarrow> log_entry exit_state \<Rightarrow> markup_node \<Rightarrow> bool" where
  "csv_fits max_str_digits st node =
     (encode_filename (node_name node) @ ''.json'' \<in> set (map fst (markup_log st))
      \<or> writable max_str_digits (max_number st + 1))"

definition csv_name :: "log_entry exit_state \<Rightarrow> markup_node \<Rightarrow> string \<times> nat" where
  "csv_name st node =
     (if encode_filename (node_name node) @ ''.json'' \<in> set (map fst (markup_log st))
      then (encode_filename (node_name node) @ ''.json'', max_number st)
      else (encode_filename (node_name node) @ ''_'' @ str_nat (max_number st + 1) @ ''.json'',
            max_number st + 1))"

definition csv_step :: "string \<Rightarrow> log_entry exit_state \<Rightarrow> markup_node \<Rightarrow> log_entry exit_state" where
  "csv_step now st node = save_node_csv now st node (fst (csv_name st node)) (snd (csv_name st node))"

definition csv_steps ::
  "string \<Rightarrow> markup_node list \<Rightarrow> log_entry exit_state \<Rightarrow> log_entry exit_state" where
  "csv_steps now nodes st = fold (\<lambda>node s. csv_step now s node) nodes st"

text \<open>\<open>keeps field log log'\<close>: every entry of \<open>log\<close> is in \<open>log'\<close> with the same
  \<open>field\<close>.\<close>

definition keeps :: "('e \<Rightarrow> 'a) \<Rightarrow> (string \<times> 'e) list \<Rightarrow> (string \<times> 'e) list \<Rightarrow> bool" where
  "keeps field log log' =
     (\<forall>k e. map_of log k = Some e \<longrightarrow> (\<exists>e'. map_of log' k = Some e' \<and> field e' = field e))"

text \<open>
  \<open>deleted_outcome unset stamp locked log st fin\<close>: what the deletion phase makes of the state
  \<open>st\<close> reached by the save loop from the loaded \<open>log\<close>. The logged names that no node of the
  scene used are the deleted ones. A deleted file that is in the folder and cannot be removed
  stays there with its entry as loaded; every other deleted file is gone from the folder and
  its entry is stamped when its \<open>deleted_at\<close> was unset. The names in use keep their entries
  and their files.
\<close>

definition deleted_outcome ::
  "('e \<Rightarrow> bool) \<Rightarrow> ('e \<Rightarrow> 'e) \<Rightarrow> string set \<Rightarrow> (string \<times> 'e) list
     \<Rightarrow> ('e, 'z) exit_state_scheme \<Rightarrow> ('e, 'z) exit_state_scheme \<Rightarrow> bool" where
  "deleted_outcome unset stamp locked log st fin =
     (set (deleted_files st) = fst ` set log - current_filenames st
      \<and> (\<forall>k \<in> fst ` set log - current_filenames st.
            if k \<in> folder_files st \<and> k \<in> locked
            then k \<in> folder_files fin \<and> map_of (markup_log fin) k = map_of log k
            else k \<notin> folder_files fin
                 \<and> map_of (markup_log fin) k
                     = map_option (\<lambda>e. if unset e then stamp e else e) (map_of log k))
      \<and> (\<forall>k. k \<in> current_filenames st \<longrightarrow>
            map_of (markup_log fin) k = map_of (markup_log st) k
            \<and> (k \<in> folder_files fin \<longleftrightarrow> k \<in> folder_files st)))"

text \<open>A loaded log of each script with one live entry and one entry deleted earlier, and
  a node of the scene.\<close>

definition ex_markups :: markup_log where
  "ex_markups =
     [(''a_1.json'', \<lparr>created_at = ''t0'', content = ''c'', deleted_at = ''''\<rparr>),
      (''b.json'', \<lparr>created_at = ''t0'', content = ''e'', deleted_at = ''t1''\<rparr>)]"

definition ex_markups_x :: xlsx_log where
  "ex_markups_x =
     [(''point_1.json'', new_entry_xlsx ''t0'' ''lesion''),
      (''lesion.json'', (new_entry_xlsx ''t0'' ''x'')\<lparr>deleted_at_x := Some ''t1''\<rparr>)]"

definition ex_node :: markup_node where
  "ex_node = \<lparr>node_name = ''b'', node_class = ''vtkMRMLMarkupsLineNode'', node_save = Saved ''{1,2}''\<rparr>"

text \<open>\<open>newly_numbered max_str_digits log st name n\<close>: \<open>name\<close> is numbered
  \<open>n = max_number + 1\<close>, which is what \<open>int\<close> reads back from it, above the largest number
  found in the loaded log and above the number of every name of the loaded log, and
  \<open>name\<close> is new to the loaded log, to the log as it stands and to the names used so far.\<close>

definition newly_numbered ::
  "nat \<Rightarrow> (string \<times> 'e) list \<Rightarrow> ('e, 'z) exit_state_scheme \<Rightarrow> string \<Rightarrow> nat \<Rightarrow> bool" where
  "newly_numbered max_str_digits log st name n =
     (n = max_number st + 1
      \<and> (\<exists>base. name = base @ ''_'' @ str_nat n @ ''.json'')
      \<and> number_part max_str_digits name = Some (int n)
      \<and> highest_number max_str_digits (map fst log) < n
      \<and> (\<forall>k \<in> fst ` set log. \<forall>m. number_part max_str_digits k = Some m \<longrightarrow> m < int n)
      \<and> name \<notin> fst ` set log
      \<and> name \<notin> fst ` set (markup_log st)
      \<and> name \<notin> current_filenames st)"

text \<open>Two nodes whose names match no logged file, one that is saved and one whose save
  fails, and a node whose name matches the XLSX entry deleted earlier.\<close>

definition ex_new_node :: markup_node where
  "ex_new_node = \<lparr>node_name = ''q r'', node_class = ''vtkMRMLMarkupsLineNode'', node_save = Saved ''{1,2}''\<rparr>"

definition ex_failed_node :: markup_node where
  "ex_failed_node = \<lparr>node_name = ''q r'', node_class = ''vtkMRMLMarkupsLineNode'', node_save = SaveFailed\<rparr>"

definition ex_lesion_node :: markup_node where
  "ex_lesion_node = \<lparr>node_name = ''lesion'', node_class = ''vtkMRMLMarkupsFiducialNode'', node_save = Saved ''{}''\<rparr>"

section \<open>Properties of the string primitives\<close>

lemma replace_Nil [simp]: "old \<noteq> [] \<Longrightarrow> replace old new [] = []"
  by (simp add: replace.simps)

lemma replace_Cons [simp]:
  "old \<noteq> [] \<Longrightarrow> replace old new (c # cs) =
     (if startswith (c # cs) old then new @ replace old new (drop (length old) (c # cs))
      else c # replace old new cs)"
  by (subst replace.simps) simp

lemma replace_char: "replace [c] code s = concat (map (\<lambda>x. if x = c then code else [x]) s)"
  by (induction s) (simp_all add: startswith_def)

lemma replace_char_append: "replace [c] code (a @ b) = replace [c] code a @ replace [c] code b"
  by (simp add: replace_char)

section \<open>Properties of the file name encoding\<close>

subsection \<open>The tables as Python evaluates them\<close>

lemma encode_replacements_eq: "encode_replacements =
     [(''/'', ''_S_''), ([CHR 0x5C], ''_B_''), ('':'', ''_C_''), (''*'', ''_A_''),
      (''?'', ''_Q_''), ([CHR 0x22], ''_E_''), (''<'', ''_L_''), (''>'', ''_G_''),
      (''|'', ''_P_''), ([CHR 0x00], ''_N_''), ('' '', ''_U_''), ('','', ''_Z_'')]"
  by (simp add: encode_replacements_def py_dict_def)

lemma decode_replacements_eq: "decode_replacements =
     [(''_S_'', ''/''), (''_B_'', [CHR 0x5C]), (''_C_'', '':''), (''_A_'', ''*''),
      (''_Q_'', ''?''), (''_W_'', [CHR 0x22]), (''_L_'', ''<''), (''_G_'', ''>''),
      (''_P_'', ''|''), (''_N_'', [CHR 0x00]), (''_U_'', '' ''), (''_Z_'', '',''),
      (''_E_'', [CHR 0x22])]"
  by (simp add: decode_replacements_def py_dict_def)

lemma encode_filename_append: "encode_filename (a @ b) = encode_filename a @ encode_filename b"
  by (simp add: encode_filename_def encode_replacements_eq replace_char_append)

lemma encode_filename_Nil: "encode_filename [] = []"
  by (simp add: encode_filename_def encode_replacements_eq)

lemma encode_filename_single: "encode_filename [c] = escape_char c"
  by (simp add: encode_filename_def encode_replacements_eq escape_char_def startswith_def)

lemma encode_filename_concat: "encode_filename name = concat (map escape_char name)"
proof (induction name)
  case Nil
  show ?case by (simp add: encode_filename_Nil)
next
  case (Cons c cs)
  have "encode_filename (c # cs) = encode_filename [c] @ encode_filename cs"
    using encode_filename_append [of "[c]" cs] by simp
  with Cons show ?case by (simp add: encode_filename_single)
qed

lemma escape_char_clean: "set (escape_char c) \<inter> special_chars = {}"
  by (simp add: escape_char_def encode_replacements_eq special_chars_def)

lemma escape_char_special: "c \<in> special_chars \<Longrightarrow> length (escape_char c) = 3"
  by (auto simp add: escape_char_def encode_replacements_eq special_chars_def)

lemma escape_char_other: "c \<notin> special_chars \<Longrightarrow> escape_char c = [c]"
  by (simp add: escape_char_def encode_replacements_eq special_chars_def)

text \<open>
  Claim C7. For every input string, \<open>encode_filename\<close> returns a string that contains none of
  the characters slash, backslash, colon, asterisk, question mark, double quote, less-than,
  greater-than, pipe, NUL, space and comma: the result is the input with every character
  replaced by what the table gives it, a three-character escape code for each of these
  twelve and the character itself otherwise.
\<close>

theorem encode_filename_no_special:
  "set (encode_filename name) \<inter> special_chars = {}
   \<and> encode_filename name = concat (map escape_char name)
   \<and> (\<exists>f. \<forall>c. escape_char c = (if c \<in> special_chars then [CHR ''_'', f c, CHR ''_''] else [c]))"
proof -
  have "\<forall>c. escape_char c =
          (if c \<in> special_chars then [CHR ''_'', escape_char c ! 1, CHR ''_''] else [c])"
    by (auto simp add: escape_char_def encode_replacements_eq special_chars_def)
  then have "\<exists>f. \<forall>c. escape_char c = (if c \<in> special_chars then [CHR ''_'', f c, CHR ''_''] else [c])"
    by (rule exI [where x = "\<lambda>c. escape_char c ! 1"])
  with escape_char_clean show ?thesis
    by (auto simp add: encode_filename_concat)
qed

theorem encode_filename_no_special_witness:
  "encode_filename (''a/b c,d'' @ [CHR 0x22, CHR 0x5C]) = ''a_S_b_U_c_Z_d_E__B_''
   \<and> set (encode_filename (''a/b c,d'' @ [CHR 0x22, CHR 0x5C])) \<inter> special_chars = {}"
proof -
  have e: "encode_filename (''a/b c,d'' @ [CHR 0x22, CHR 0x5C]) = ''a_S_b_U_c_Z_d_E__B_''"
    by (simp add: encode_filename_def encode_replacements_eq startswith_def)
  have c: "set (encode_filename (''a/b c,d'' @ [CHR 0x22, CHR 0x5C])) \<inter> special_chars = {}"
    by (rule conjunct1 [OF encode_filename_no_special])
  show ?thesis by (rule conjI [OF e c])
qed

subsection \<open>Decoding an encoded name\<close>

lemma render_Nil [simp]: "render [] = []" by (simp add: render_def)

lemma render_Cons [simp]: "render (x # xs) = render1 x @ render xs" by (simp add: render_def)

lemma code_letter_not_us: "x \<in> code_letters \<Longrightarrow> x \<noteq> CHR ''_''"
  by (auto simp add: code_letters_def)

lemma render_starts:
  assumes "y \<in> code_letters" "\<not> bad_start xs"
  shows "\<not> startswith (CHR ''_'' # render xs) [CHR ''_'', y, CHR ''_'']"
proof (cases xs)
  case Nil
  then show ?thesis by (simp add: startswith_def)
next
  case (Cons a ys)
  show ?thesis
  proof (cases a)
    case (Raw c)
    show ?thesis
    proof (cases ys)
      case Nil
      with Cons Raw show ?thesis by (simp add: startswith_def)
    next
      case (Cons b zs)
      with assms \<open>xs = a # ys\<close> Raw show ?thesis
        by (cases b) (auto simp add: startswith_def)
    qed
  next
    case (Code x)
    with Cons assms show ?thesis
      using code_letter_not_us [of y] by (auto simp add: startswith_def)
  qed
qed

lemma replace_render:
  assumes "y \<in> code_letters"
  shows "good xs \<Longrightarrow> replace [CHR ''_'', y, CHR ''_''] [ch] (render xs) = render (map (subst y ch) xs)"
proof (induction xs)
  case Nil
  show ?case by simp
next
  case (Cons a xs)
  show ?case
  proof (cases a)
    case (Raw c)
    show ?thesis
    proof (cases "c = CHR ''_''")
      case False
      with Raw Cons show ?thesis by (simp add: startswith_def)
    next
      case True
      with Raw Cons.prems have gx: "good xs" and nb: "\<not> bad_start xs" by simp_all
      have ns: "\<not> startswith (CHR ''_'' # render xs) [CHR ''_'', y, CHR ''_'']"
        using render_starts [OF assms nb] .
      with Raw True Cons.IH gx show ?thesis by simp
    qed
  next
    case (Code x)
    with Cons.prems have gx: "good xs" and nb: "\<not> bad_start xs" and xl: "x \<in> code_letters"
      by simp_all
    show ?thesis
    proof (cases "x = y")
      case True
      with Code Cons.IH gx show ?thesis by (simp add: startswith_def)
    next
      case False
      have ns: "\<not> startswith (CHR ''_'' # render xs) [CHR ''_'', y, CHR ''_'']"
        using render_starts [OF assms nb] .
      have "replace [CHR ''_'', y, CHR ''_''] [ch] (CHR ''_'' # x # CHR ''_'' # render xs)
            = CHR ''_'' # x # CHR ''_'' # replace [CHR ''_'', y, CHR ''_''] [ch] (render xs)"
        using False ns code_letter_not_us [OF xl]
        by (cases "render xs") (auto simp add: startswith_def)
      with Code False Cons.IH gx show ?thesis by simp
    qed
  qed
qed

lemma sep_subst: "ch \<noteq> CHR ''_'' \<Longrightarrow> sep_sym (subst y ch s) \<Longrightarrow> sep_sym s"
  by (cases s) simp_all

lemma bad_start_subst:
  assumes "ch \<notin> code_letters" "ch \<noteq> CHR ''_''" "bad_start (map (subst y ch) xs)"
  shows "bad_start xs"
proof (cases xs)
  case Nil
  with assms show ?thesis by simp
next
  case (Cons a ys)
  show ?thesis
  proof (cases ys)
    case Nil
    with assms Cons show ?thesis by (cases a) (auto split: if_splits)
  next
    case (Cons b zs)
    with assms \<open>xs = a # ys\<close> sep_subst [of ch y b] show ?thesis
      by (cases a) (auto split: if_splits)
  qed
qed

lemma good_subst:
  "ch \<notin> code_letters \<Longrightarrow> ch \<noteq> CHR ''_'' \<Longrightarrow> good xs \<Longrightarrow> good (map (subst y ch) xs)"
proof (induction xs)
  case Nil
  show ?case by simp
next
  case (Cons a xs)
  show ?case
  proof (cases a)
    case (Raw c)
    with Cons show ?thesis
      using bad_start_subst [of ch y xs] by auto
  next
    case (Code x)
    with Cons show ?thesis
      using bad_start_subst [of ch y xs] by auto
  qed
qed

lemma render1_sym_of: "render1 (sym_of c) = escape_char c"
  by (simp add: sym_of_def escape_char_def encode_replacements_eq special_chars_def)

lemma encode_filename_render: "encode_filename name = render (map sym_of name)"
  by (simp add: encode_filename_concat render_def comp_def render1_sym_of)

lemma sym_of_code_letter: "c \<in> special_chars \<Longrightarrow> escape_char c ! Suc 0 \<in> code_letters"
  by (auto simp add: escape_char_def encode_replacements_eq special_chars_def code_letters_def)

lemma sym_of_other: "c \<notin> special_chars \<Longrightarrow> sym_of c = Raw c"
  by (simp add: sym_of_def)

lemma sym_of_special: "c \<in> special_chars \<Longrightarrow> sym_of c = Code (escape_char c ! 1)"
  by (simp add: sym_of_def)

lemma code_letter_not_special: "y \<in> code_letters \<Longrightarrow> y \<notin> special_chars"
  by (auto simp add: code_letters_def special_chars_def)

lemma sep_sym_of: "sep_sym (sym_of c) = separator c"
  by (cases "c \<in> special_chars") (auto simp add: sym_of_def separator_def)

lemma bad_start_sym_of:
  "bad_start (map sym_of cs)
     = (case cs of y # s # _ \<Rightarrow> y \<in> code_letters \<and> separator s | _ \<Rightarrow> False)"
proof (cases cs)
  case Nil
  then show ?thesis by simp
next
  case (Cons y ys)
  show ?thesis
  proof (cases ys)
    case Nil
    with Cons show ?thesis by (cases "sym_of y") simp_all
  next
    case (Cons s zs)
    show ?thesis
    proof (cases "y \<in> special_chars")
      case True
      with \<open>cs = y # ys\<close> Cons code_letter_not_special [of y] show ?thesis
        by (auto simp add: sym_of_special)
    next
      case False
      with \<open>cs = y # ys\<close> Cons show ?thesis
        by (simp add: sym_of_other sep_sym_of)
    qed
  qed
qed

lemma good_sym_of: "roundtrip_safe name \<Longrightarrow> good (map sym_of name)"
proof (induction name)
  case Nil
  show ?case by simp
next
  case (Cons c cs)
  then have g: "good (map sym_of cs)" by simp
  from Cons.prems have nb: "separator c \<longrightarrow> \<not> bad_start (map sym_of cs)"
    by (simp add: bad_start_sym_of)
  show ?case
  proof (cases "c \<in> special_chars")
    case False
    with nb g show ?thesis by (simp add: sym_of_other separator_def)
  next
    case True
    with nb g show ?thesis by (simp add: sym_of_special sym_of_code_letter separator_def)
  qed
qed

lemma decode_pair_shape:
  assumes "decode_pair_ok (code, ch)"
  shows "code = [CHR ''_'', code ! 1, CHR ''_''] \<and> ch = [hd ch]"
proof -
  from assms have l: "length code = 3" and a: "code ! 0 = CHR ''_''" and b: "code ! 2 = CHR ''_''"
    and c: "length ch = 1"
    by (simp_all add: decode_pair_ok_def)
  from l obtain x y z where code: "code = [x, y, z]"
    by (cases code; cases "tl code"; cases "tl (tl code)") auto
  from c obtain d where ch: "ch = [d]"
    by (cases ch) auto
  from code ch a b show ?thesis by simp
qed

lemma fold_replace_render:
  "list_all decode_pair_ok reps \<Longrightarrow> good xs \<Longrightarrow>
   fold (\<lambda>(code, ch) nm. replace code ch nm) reps (render xs)
     = render (map (fold (\<lambda>(code, ch). subst (code ! 1) (hd ch)) reps) xs)
   \<and> good (map (fold (\<lambda>(code, ch). subst (code ! 1) (hd ch)) reps) xs)"
proof (induction reps arbitrary: xs)
  case Nil
  then show ?case by simp
next
  case (Cons r reps)
  obtain code ch where r: "r = (code, ch)" by (cases r)
  from Cons.prems r have ok: "decode_pair_ok (code, ch)" and rest: "list_all decode_pair_ok reps"
    by simp_all
  from decode_pair_shape [OF ok]
  have code: "code = [CHR ''_'', code ! 1, CHR ''_'']" and ch: "ch = [hd ch]" by simp_all
  from ok have y: "code ! 1 \<in> code_letters" and c1: "hd ch \<notin> code_letters" and c2: "hd ch \<noteq> CHR ''_''"
    by (simp_all add: decode_pair_ok_def)
  let ?xs' = "map (subst (code ! 1) (hd ch)) xs"
  have "replace [CHR ''_'', code ! 1, CHR ''_''] [hd ch] (render xs) = render ?xs'"
    using replace_render [OF y Cons.prems(2)] .
  with code ch have step: "replace code ch (render xs) = render ?xs'" by simp
  have g: "good ?xs'" using good_subst [OF c1 c2 Cons.prems(2)] .
  from Cons.IH [OF rest g] r step show ?case by (simp add: comp_def)
qed

lemma decode_filename_render:
  assumes "good xs"
  shows "decode_filename (render xs) = render (map decode_sym xs)"
proof -
  have "list_all decode_pair_ok decode_replacements"
    by (simp add: decode_replacements_eq decode_pair_ok_def code_letters_def)
  from fold_replace_render [OF this assms] show ?thesis
    by (simp add: decode_filename_def decode_sym_def)
qed

lemma decode_sym_sym_of: "decode_sym (sym_of c) = Raw c"
proof (cases "c \<in> special_chars")
  case False
  then show ?thesis by (simp add: sym_of_other decode_sym_def decode_replacements_eq)
next
  case True
  then show ?thesis
    by (auto simp add: sym_of_special decode_sym_def decode_replacements_eq special_chars_def
          escape_char_def encode_replacements_eq)
qed

lemma render_Raw: "render (map Raw name) = name"
  by (induction name) simp_all

text \<open>
  Claim C9 says that \<open>decode_filename (encode_filename name) = name\<close> for every string. It
  fails for a name that already contains an escape code: \<open>_S_\<close> has no special character,
  so it is encoded as itself, and decodes to a slash. As amended: the equation holds for
  every name in which no code letter (one of \<open>S B C A Q W L G P N U Z E\<close>) stands directly
  between two characters that are each an underscore or a special character.
\<close>

theorem decode_encode_safe:
  "roundtrip_safe name \<Longrightarrow> decode_filename (encode_filename name) = name"
proof -
  assume "roundtrip_safe name"
  then have "good (map sym_of name)" by (rule good_sym_of)
  then have "decode_filename (encode_filename name) = render (map decode_sym (map sym_of name))"
    by (simp only: encode_filename_render decode_filename_render)
  also have "\<dots> = render (map Raw name)"
    by (simp add: comp_def decode_sym_sym_of)
  finally show ?thesis by (simp add: render_Raw)
qed

theorem decode_encode_safe_witness:
  "roundtrip_safe ''Lesion_left 1/2: F_1'' \<and>
   encode_filename ''Lesion_left 1/2: F_1'' = ''Lesion_left_U_1_S_2_C__U_F_1'' \<and>
   decode_filename (encode_filename ''Lesion_left 1/2: F_1'') = ''Lesion_left 1/2: F_1''"
proof -
  have s: "roundtrip_safe ''Lesion_left 1/2: F_1''"
    by (simp add: separator_def special_chars_def code_letters_def)
  have e: "encode_filename ''Lesion_left 1/2: F_1'' = ''Lesion_left_U_1_S_2_C__U_F_1''"
    by (simp add: encode_filename_def encode_replacements_eq startswith_def)
  from s e decode_encode_safe [OF s] show ?thesis by simp
qed

theorem decode_encode_counterexample:
  "decode_filename (encode_filename ''_S_'') = ''/''"
  by (simp add: encode_filename_def decode_filename_def encode_replacements_eq
        decode_replacements_eq startswith_def)

section \<open>Properties of the master status log update\<close>

lemma split_nonempty [simp]: "split sep s \<noteq> []"
  by (induction s) (auto split: list.splits)

lemma split_no_sep: "p \<in> set (split sep s) \<Longrightarrow> sep \<notin> set p"
  by (induction s arbitrary: p) (auto split: list.splits if_splits)

lemma split_plain: "sep \<notin> set p \<Longrightarrow> split sep p = [p]"
  by (induction p) auto

lemma split_append_sep: "sep \<notin> set p \<Longrightarrow> split sep (p @ sep # r) = p # split sep r"
  by (induction p) auto

lemma split_join:
  "ps \<noteq> [] \<Longrightarrow> (\<And>p. p \<in> set ps \<Longrightarrow> sep \<notin> set p) \<Longrightarrow> split sep (join [sep] ps) = ps"
proof (induction "[sep]" ps rule: join.induct)
  case 1
  then show ?case by simp
next
  case (2 p)
  then show ?case by (simp add: split_plain)
next
  case (3 p q ps)
  then show ?case by (simp add: split_append_sep)
qed

lemma join_split: "join [sep] (split sep s) = s"
proof (induction s)
  case Nil
  show ?case by simp
next
  case (Cons c cs)
  show ?case
  proof (cases "split sep cs")
    case Nil
    then show ?thesis using split_nonempty [of sep cs] by simp
  next
    case (Cons p ps)
    with Cons.IH show ?thesis by (cases ps) auto
  qed
qed

lemma set_strip: "set (strip s) \<subseteq> set s"
proof -
  have "set (strip s) \<subseteq> set (dropWhile is_space s)"
    unfolding strip_def using set_dropWhileD by fastforce
  also have "\<dots> \<subseteq> set s" using set_dropWhileD by fastforce
  finally show ?thesis .
qed

lemma concat_readlines: "concat (readlines s) = s"
  by (induction s) (auto split: list.splits)

lemma readlines_complete:
  "CHR 0x0A \<notin> set b \<Longrightarrow> readlines (b @ CHR 0x0A # r) = (b @ [CHR 0x0A]) # readlines r"
  by (induction b) auto

lemma readlines_partial: "l \<noteq> [] \<Longrightarrow> CHR 0x0A \<notin> set l \<Longrightarrow> readlines l = [l]"
proof (induction l)
  case Nil
  then show ?case by simp
next
  case (Cons c cs)
  then show ?case by (cases cs) auto
qed

lemma readlines_line:
  assumes "l \<noteq> []" "CHR 0x0A \<notin> set (butlast l)"
  shows "readlines l = [l]"
proof (cases "last l = CHR 0x0A")
  case True
  with assms have "l = butlast l @ [CHR 0x0A]" by (metis append_butlast_last_id)
  then have "readlines l = readlines (butlast l @ CHR 0x0A # [])" by simp
  also have "\<dots> = (butlast l @ [CHR 0x0A]) # readlines []"
    using assms(2) by (rule readlines_complete)
  finally show ?thesis using \<open>l = butlast l @ [CHR 0x0A]\<close> by simp
next
  case False
  with assms have "CHR 0x0A \<notin> set l"
    by (metis append_butlast_last_id set_ConsD rotate1.simps(2) set_rotate1)
  with assms(1) show ?thesis by (rule readlines_partial)
qed

lemma readlines_concat: "lines_ok ls \<Longrightarrow> readlines (concat ls) = ls"
proof (induction ls rule: lines_ok.induct)
  case 1
  show ?case by simp
next
  case (2 l)
  then show ?case by (simp add: readlines_line)
next
  case (3 l m ls)
  then have "l \<noteq> []" and "last l = CHR 0x0A" and nb: "CHR 0x0A \<notin> set (butlast l)"
    and rest: "readlines (concat (m # ls)) = m # ls"
    by simp_all
  then obtain b where l: "l = b @ [CHR 0x0A]"
    by (metis append_butlast_last_id)
  from nb have b: "CHR 0x0A \<notin> set b" by (simp add: l)
  have "readlines (concat (l # m # ls)) = readlines (b @ CHR 0x0A # concat (m # ls))"
    by (simp add: l)
  also have "\<dots> = (b @ [CHR 0x0A]) # readlines (concat (m # ls))"
    using b by (rule readlines_complete)
  finally show ?case using rest by (simp add: l)
qed

lemma lines_ok_readlines: "lines_ok (readlines s)"
proof (induction s)
  case Nil
  show ?case by simp
next
  case (Cons c cs)
  show ?case
  proof (cases "c = CHR 0x0A")
    case True
    with Cons show ?thesis by (cases "readlines cs") auto
  next
    case False
    show ?thesis
    proof (cases "readlines cs")
      case Nil
      with False show ?thesis by simp
    next
      case (Cons l ls)
      with False Cons.IH show ?thesis
        by (cases ls) (auto simp add: butlast_tl split: if_splits)
    qed
  qed
qed

lemma strip_no_newline:
  assumes "CHR 0x0A \<notin> set (butlast l)"
  shows "CHR 0x0A \<notin> set (strip l)"
proof -
  define m where "m = dropWhile is_space l"
  have sp: "is_space (CHR 0x0A)" by (simp add: is_space_def)
  have st: "strip l = rev (dropWhile is_space (rev m))" by (simp add: strip_def m_def)
  show ?thesis
  proof (cases "m = []")
    case True
    with st show ?thesis by simp
  next
    case False
    then obtain b x where m: "m = b @ [x]" by (metis append_butlast_last_id)
    obtain p where l: "l = p @ m" unfolding m_def by (metis takeWhile_dropWhile_id)
    with m have "butlast l = p @ b" by (simp add: butlast_append)
    with assms have nb: "CHR 0x0A \<notin> set b" by simp
    have "set (dropWhile is_space (rev b)) \<subseteq> set b"
      using set_dropWhileD by fastforce
    with nb sp m have "CHR 0x0A \<notin> set (dropWhile is_space (rev m))"
      by auto
    with st show ?thesis by simp
  qed
qed

lemma set_join: "set (join sep ps) \<subseteq> set sep \<union> \<Union> (set ` set ps)"
  by (induction sep ps rule: join.induct) auto

lemma set_split: "p \<in> set (split sep s) \<Longrightarrow> set p \<subseteq> set s"
proof (induction s arbitrary: p)
  case Nil
  then show ?case by simp
next
  case (Cons c cs)
  obtain q qs where q: "split sep cs = q # qs"
    using split_nonempty [of sep cs] by (cases "split sep cs") auto
  from Cons.IH q have "set q \<subseteq> set cs" and "\<And>r. r \<in> set qs \<Longrightarrow> set r \<subseteq> set cs"
    by simp_all
  with Cons.prems q show ?case
    by (cases "c = sep") auto
qed

lemma pad_parts_eq: "pad_parts parts = parts @ replicate (3 - length parts) []"
proof (induction parts rule: pad_parts.induct)
  case (1 parts)
  show ?case
  proof (cases "length parts < 3")
    case True
    with 1 have "pad_parts (parts @ [[]]) = (parts @ [[]]) @ replicate (3 - length (parts @ [[]])) []"
      by simp
    moreover have "pad_parts parts = pad_parts (parts @ [[]])"
      using True by (subst pad_parts.simps) simp
    moreover from True have "3 - length parts = Suc (3 - length (parts @ [[]]))" by simp
    ultimately show ?thesis by simp
  next
    case False
    then show ?thesis by (subst pad_parts.simps) simp
  qed
qed

lemma rewrite_line_other:
  "\<not> startswith line (rn @ '','') \<Longrightarrow> rewrite_line rn ds line = line"
  by (simp add: rewrite_line_def)

lemma rewrite_line_match:
  "startswith line (rn @ '','') \<Longrightarrow>
   rewrite_line rn ds line = join '','' ((pad_parts (split CHR '','' (strip line)))[2 := ds]) @ [CHR 0x0A]"
  by (simp add: rewrite_line_def stripped_fields_def)

lemma length_pad_parts: "length (pad_parts ps) = max 3 (length ps)"
  by (simp add: pad_parts_eq)

lemma set_pad_parts: "set (pad_parts ps) \<subseteq> insert [] (set ps)"
  by (auto simp add: pad_parts_eq)

lemma fields_chars:
  assumes "p \<in> set ((pad_parts (split sep s))[2 := ds])"
  shows "p = ds \<or> p = [] \<or> p \<in> set (split sep s)"
proof -
  from assms have "p = ds \<or> p \<in> set (pad_parts (split sep s))"
    using set_update_subset_insert [of "pad_parts (split sep s)" 2 ds] by auto
  with set_pad_parts [of "split sep s"] show ?thesis by auto
qed

lemma fields_no_comma:
  assumes "p \<in> set ((pad_parts (split sep s))[2 := ds])" "sep \<notin> set ds"
  shows "sep \<notin> set p"
  using fields_chars [OF assms(1)] assms(2) split_no_sep [of p sep s] by auto

lemma fields_roundtrip:
  assumes "CHR '','' \<notin> set ds"
  shows "split CHR '','' (join '','' ((pad_parts (split CHR '','' s))[2 := ds]))
           = (pad_parts (split CHR '','' s))[2 := ds]"
proof (rule split_join)
  show "(pad_parts (split CHR '','' s))[2 := ds] \<noteq> []"
    using length_pad_parts [of "split CHR '','' s"] by (metis length_0_conv length_list_update max.cobounded1 not_numeral_le_zero)
next
  fix p
  assume "p \<in> set ((pad_parts (split CHR '','' s))[2 := ds])"
  then show "CHR '','' \<notin> set p" using assms by (rule fields_no_comma)
qed

lemma rewritten_no_newline:
  assumes "CHR 0x0A \<notin> set (butlast l)" "CHR 0x0A \<notin> set ds"
  shows "CHR 0x0A \<notin> set (join '','' ((pad_parts (split CHR '','' (strip l)))[2 := ds]))"
proof
  assume "CHR 0x0A \<in> set (join '','' ((pad_parts (split CHR '','' (strip l)))[2 := ds]))"
  with set_join [of "'',''" "(pad_parts (split CHR '','' (strip l)))[2 := ds]"]
  obtain p where p: "p \<in> set ((pad_parts (split CHR '','' (strip l)))[2 := ds])"
    and n: "CHR 0x0A \<in> set p"
    by auto
  from fields_chars [OF p] n assms(2) have "p \<in> set (split CHR '','' (strip l))" by auto
  then have "set p \<subseteq> set (strip l)" by (rule set_split)
  with n strip_no_newline [OF assms(1)] show False by auto
qed

lemma rewrite_line_shape:
  assumes "l \<noteq> []" "CHR 0x0A \<notin> set (butlast l)" "CHR 0x0A \<notin> set ds"
  shows "rewrite_line rn ds l \<noteq> [] \<and> CHR 0x0A \<notin> set (butlast (rewrite_line rn ds l))
         \<and> (last l = CHR 0x0A \<longrightarrow> last (rewrite_line rn ds l) = CHR 0x0A)"
proof (cases "startswith l (rn @ '','')")
  case True
  with rewritten_no_newline [OF assms(2,3)] show ?thesis
    by (simp add: rewrite_line_match)
next
  case False
  with assms show ?thesis by (simp add: rewrite_line_other)
qed

lemma lines_ok_rewrite:
  "lines_ok ls \<Longrightarrow> CHR 0x0A \<notin> set ds \<Longrightarrow> lines_ok (map (rewrite_line rn ds) ls)"
proof (induction ls rule: lines_ok.induct)
  case 1
  show ?case by simp
next
  case (2 l)
  then show ?case using rewrite_line_shape [of l ds rn] by simp
next
  case (3 l m ls)
  then show ?case using rewrite_line_shape [of l ds rn] by simp
qed

lemma done_status_chars: "CHR 0x0A \<notin> set (done_status nodes) \<and> CHR '','' \<notin> set (done_status nodes)"
  by (simp add: done_status_def)

lemma readlines_rewritten:
  "readlines (concat (map (rewrite_line rn (done_status nodes)) (readlines text)))
     = map (rewrite_line rn (done_status nodes)) (readlines text)"
  by (rule readlines_concat) (simp add: lines_ok_rewrite lines_ok_readlines done_status_chars)

lemma dropWhile_id_iff_length: "length (dropWhile P xs) = length xs \<Longrightarrow> dropWhile P xs = xs"
  by (metis append_eq_append_conv append_self_conv2 takeWhile_dropWhile_id)

lemma strip_fixed:
  assumes "strip b = b"
  shows "dropWhile is_space b = b \<and> dropWhile is_space (rev b) = rev b"
proof -
  have l1: "length (dropWhile is_space (rev (dropWhile is_space b))) \<le> length (dropWhile is_space b)"
    by (metis length_dropWhile_le length_rev)
  have l2: "length (dropWhile is_space b) \<le> length b" by (rule length_dropWhile_le)
  from assms have "length (dropWhile is_space (rev (dropWhile is_space b))) = length b"
    by (metis strip_def length_rev)
  with l1 l2 have "length (dropWhile is_space b) = length b" by simp
  then have d: "dropWhile is_space b = b" by (rule dropWhile_id_iff_length)
  with assms have "rev (dropWhile is_space (rev b)) = b" by (simp add: strip_def)
  then have "dropWhile is_space (rev b) = rev b" by (metis rev_rev_ident)
  with d show ?thesis by simp
qed

lemma strip_newline:
  assumes "strip b = b"
  shows "strip (b @ [CHR 0x0A]) = b"
proof (cases b)
  case Nil
  then show ?thesis by (simp add: strip_def is_space_def)
next
  case (Cons c cs)
  from strip_fixed [OF assms] have d: "dropWhile is_space b = b"
    and r: "dropWhile is_space (rev b) = rev b" by simp_all
  from d Cons have "\<not> is_space c" by (metis dropWhile_eq_Cons_conv)
  with Cons have "dropWhile is_space (b @ [CHR 0x0A]) = b @ [CHR 0x0A]" by simp
  moreover have "is_space (CHR 0x0A)" by (simp add: is_space_def)
  ultimately show ?thesis using r by (simp add: strip_def)
qed

lemma read_text_Cons: "c \<noteq> CHR 0x0D \<Longrightarrow> read_text (c # cs) = c # read_text cs"
  by (cases cs) simp_all

lemma read_text_no_CR: "CHR 0x0D \<notin> set (read_text s)"
  by (induction s rule: read_text.induct) auto

lemma read_write_text: "CHR 0x0D \<notin> set t \<Longrightarrow> read_text (write_text os t) = t"
proof (induction t)
  case Nil
  show ?case by (simp add: write_text_def)
next
  case (Cons c cs)
  then have ih: "read_text (write_text os cs) = cs" and c: "c \<noteq> CHR 0x0D" by auto
  have w: "write_text os (c # cs) = (if c = CHR 0x0A then linesep os else [c]) @ write_text os cs"
    by (simp add: write_text_def)
  show ?case
  proof (cases "c = CHR 0x0A")
    case True
    with w ih show ?thesis by (cases os) (simp_all add: read_text_Cons)
  next
    case False
    with w ih c show ?thesis by (simp add: read_text_Cons)
  qed
qed

lemma rewritten_chars:
  "set (join '','' ((pad_parts (split CHR '','' (strip l)))[2 := ds]))
     \<subseteq> insert CHR '','' (set ds \<union> set l)"
proof
  fix x
  assume "x \<in> set (join '','' ((pad_parts (split CHR '','' (strip l)))[2 := ds]))"
  with set_join [of "'',''" "(pad_parts (split CHR '','' (strip l)))[2 := ds]"]
  have "x = CHR '','' \<or>
        (\<exists>p. p \<in> set ((pad_parts (split CHR '','' (strip l)))[2 := ds]) \<and> x \<in> set p)"
    by auto
  then show "x \<in> insert CHR '','' (set ds \<union> set l)"
  proof
    assume "x = CHR '',''"
    then show ?thesis by simp
  next
    assume "\<exists>p. p \<in> set ((pad_parts (split CHR '','' (strip l)))[2 := ds]) \<and> x \<in> set p"
    then obtain p where p: "p \<in> set ((pad_parts (split CHR '','' (strip l)))[2 := ds])"
      and x: "x \<in> set p" by blast
    from fields_chars [OF p] x have "x \<in> set ds \<or> p \<in> set (split CHR '','' (strip l))" by auto
    then show ?thesis
    proof
      assume "x \<in> set ds"
      then show ?thesis by simp
    next
      assume "p \<in> set (split CHR '','' (strip l))"
      then have "set p \<subseteq> set (strip l)" by (rule set_split)
      with x set_strip [of l] show ?thesis by auto
    qed
  qed
qed

lemma rewrite_line_no_CR:
  assumes "CHR 0x0D \<notin> set l" "CHR 0x0D \<notin> set ds"
  shows "CHR 0x0D \<notin> set (rewrite_line rn ds l)"
proof (cases "startswith l (rn @ '','')")
  case True
  with rewritten_chars [of l ds] assms show ?thesis
    by (auto simp add: rewrite_line_match)
next
  case False
  with assms show ?thesis by (simp add: rewrite_line_other)
qed

lemma readlines_subset: "l \<in> set (readlines s) \<Longrightarrow> set l \<subseteq> set s"
proof -
  assume "l \<in> set (readlines s)"
  then have "set l \<subseteq> set (concat (readlines s))" by auto
  then show ?thesis by (simp add: concat_readlines)
qed

lemma rewritten_text_no_CR:
  "CHR 0x0D \<notin> set (concat (map (rewrite_line rn (done_status nodes)) (readlines (read_text old))))"
proof -
  have d: "CHR 0x0D \<notin> set (done_status nodes)" by (simp add: done_status_def)
  have "\<And>l. l \<in> set (readlines (read_text old)) \<Longrightarrow>
          CHR 0x0D \<notin> set (rewrite_line rn (done_status nodes) l)"
  proof -
    fix l
    assume "l \<in> set (readlines (read_text old))"
    then have "set l \<subseteq> set (read_text old)" by (rule readlines_subset)
    with read_text_no_CR [of old] have "CHR 0x0D \<notin> set l" by auto
    then show "CHR 0x0D \<notin> set (rewrite_line rn (done_status nodes) l)"
      using d by (rule rewrite_line_no_CR)
  qed
  then show ?thesis by auto
qed

lemma lines_read_back:
  "readlines (read_text (write_text os
      (concat (map (rewrite_line rn (done_status nodes)) (readlines (read_text old))))))
     = map (rewrite_line rn (done_status nodes)) (readlines (read_text old))"
  by (simp only: read_write_text [OF rewritten_text_no_CR] readlines_rewritten)

lemma update_body_success:
  assumes "fst (update_body fault os log_csv rn ds fs) = None"
  shows "\<exists>old. fs log_csv = Some old
           \<and> snd (update_body fault os log_csv rn ds fs) log_csv
               = Some (write_text os (concat (map (rewrite_line rn ds) (readlines (read_text old)))))
           \<and> snd (update_body fault os log_csv rn ds fs) (log_csv @ ''.tmp'') = None"
  using assms
  by (cases "fs log_csv"; cases fault)
     (auto simp add: update_body_def Let_def split: if_splits)

lemma update_body_failure:
  assumes "fst (update_body fault os log_csv rn ds fs) \<noteq> None"
  shows "snd (update_body fault os log_csv rn ds fs) log_csv = fs log_csv"
  using assms
  by (cases "fs log_csv"; cases fault)
     (auto simp add: update_body_def Let_def split: if_splits)

lemma update_report_log_result:
  "\<exists>r. update_report_log fault os log_csv rn nodes fs = Inr r
       \<and> files_after r = snd (update_body fault os log_csv rn (done_status nodes) fs)
       \<and> (fst (update_body fault os log_csv rn (done_status nodes) fs) \<noteq> None
            \<longrightarrow> printed r = ''Failed to update log file'')"
  by (cases "update_body fault os log_csv rn (done_status nodes) fs")
     (auto simp add: update_report_log_def Let_def split: option.splits)

lemma update_written:
  assumes "fst (update_body fault os log_csv rn (done_status nodes) fs) = None"
  shows "\<exists>old new. fs log_csv = Some old
           \<and> snd (update_body fault os log_csv rn (done_status nodes) fs) log_csv = Some new
           \<and> new = write_text os
                     (concat (map (rewrite_line rn (done_status nodes)) (readlines (read_text old))))
           \<and> readlines (read_text new)
               = map (rewrite_line rn (done_status nodes)) (readlines (read_text old))"
proof -
  from update_body_success [OF assms] obtain old where
    t: "fs log_csv = Some old" and
    n: "snd (update_body fault os log_csv rn (done_status nodes) fs) log_csv
          = Some (write_text os
                   (concat (map (rewrite_line rn (done_status nodes)) (readlines (read_text old)))))"
    by blast
  from t n lines_read_back [of os rn nodes old] show ?thesis by simp
qed

lemma report_field_startswith:
  assumes "CHR '','' \<in> set line" "takeWhile (\<lambda>c. c \<noteq> CHR '','') line = rn"
  shows "startswith line (rn @ '','')"
proof -
  from assms(1) have "dropWhile (\<lambda>c. c \<noteq> CHR '','') line \<noteq> []" by simp
  moreover have "hd (dropWhile (\<lambda>c. c \<noteq> CHR '','') line) = CHR '',''"
    using assms(1) hd_dropWhile [of "\<lambda>c. c \<noteq> CHR '',''" line] by auto
  ultimately obtain r where "dropWhile (\<lambda>c. c \<noteq> CHR '','') line = CHR '','' # r"
    by (cases "dropWhile (\<lambda>c. c \<noteq> CHR '','') line") auto
  with assms(2) have "line = rn @ CHR '','' # r"
    using takeWhile_dropWhile_id [of "\<lambda>c. c \<noteq> CHR '',''" line] by simp
  then show ?thesis by (simp add: startswith_def)
qed

lemma startswith_report_field:
  assumes "startswith line (rn @ '','')" "CHR '','' \<notin> set rn"
  shows "CHR '','' \<in> set line \<and> takeWhile (\<lambda>c. c \<noteq> CHR '','') line = rn"
proof -
  from assms(1) have "line = (rn @ '','') @ drop (length (rn @ '','')) line"
    unfolding startswith_def by (metis append_take_drop_id)
  then obtain r where l: "line = rn @ CHR '','' # r" by simp
  have "takeWhile (\<lambda>c. c \<noteq> CHR '','') (rn @ CHR '','' # r) = rn"
    using assms(2) by (auto simp add: takeWhile_tail)
  with l show ?thesis by simp
qed

lemma matching_row:
  assumes "startswith line (rn @ '','')"
  shows "\<exists>parts. rewrite_line rn (done_status nodes) line = join '','' parts @ [CHR 0x0A]
           \<and> split CHR '','' (join '','' parts) = parts
           \<and> parts = (stripped_fields line)[2 := done_status nodes]
           \<and> 2 < length parts
           \<and> parts ! 2 = (if nodes = [] then '''' else ''True'')"
proof -
  let ?parts = "(stripped_fields line)[2 := done_status nodes]"
  have "rewrite_line rn (done_status nodes) line = join '','' ?parts @ [CHR 0x0A]"
    using rewrite_line_match [OF assms] by (simp add: stripped_fields_def)
  moreover have "split CHR '','' (join '','' ?parts) = ?parts"
    using done_status_chars [of nodes] by (simp add: fields_roundtrip stripped_fields_def)
  moreover have "2 < length ?parts" by (simp add: length_pad_parts stripped_fields_def)
  moreover have "?parts ! 2 = (if nodes = [] then '''' else ''True'')"
    by (simp add: length_pad_parts done_status_def stripped_fields_def)
  ultimately show ?thesis by blast
qed

text \<open>
  Claim C4 says that the row whose Report field equals the report number has its third
  (Done) column set to \<open>True\<close> if at least one markup node existed in the scene at exit and
  to the empty string if none did, whatever the saves did. The handler goes by the text of
  the line: a line is rewritten exactly when it begins with the report number followed by a
  comma, and its columns are the pieces between its commas. A row that is the report number
  alone is left as it is, and a comma inside a quoted field separates like any other: the
  row \<open>5,"a,b",\<close> becomes \<open>5,"a,True,\<close>. As amended, for an update that ran without an
  exception (claim C5 is about the other case): the new file is the old one read as text,
  line by line, each line rewritten and written with the platform's line end; a line that
  begins with the report number and a comma is stripped, split at every comma and padded to
  three pieces, and is written with the third piece \<open>True\<close> or empty as the node list is
  non-empty or empty; every other line is left as it is; for a report number without a
  comma the lines rewritten are those with a comma whose text before the first comma is the
  report number; and \<open>done_status\<close> does not change when the nodes (their save outcomes,
  say) are replaced one by one.
\<close>

theorem master_log_done_column:
  assumes "fst (update_body fault os log_csv rn (done_status nodes) fs) = None"
  shows "(\<exists>old r new. fs log_csv = Some old
            \<and> update_report_log fault os log_csv rn nodes fs = Inr r
            \<and> files_after r log_csv = Some new
            \<and> new = write_text os
                      (concat (map (rewrite_line rn (done_status nodes)) (readlines (read_text old))))
            \<and> readlines (read_text new)
                = map (rewrite_line rn (done_status nodes)) (readlines (read_text old)))
         \<and> (\<forall>line. startswith line (rn @ '','') \<longrightarrow>
              (\<exists>parts. rewrite_line rn (done_status nodes) line = join '','' parts @ [CHR 0x0A]
                  \<and> split CHR '','' (join '','' parts) = parts \<and> 2 < length parts
                  \<and> parts ! 2 = (if nodes = [] then '''' else ''True'')))
         \<and> (\<forall>line. \<not> startswith line (rn @ '','') \<longrightarrow>
              rewrite_line rn (done_status nodes) line = line)
         \<and> (CHR '','' \<notin> set rn \<longrightarrow>
              (\<forall>line. startswith line (rn @ '','') \<longleftrightarrow>
                 CHR '','' \<in> set line \<and> takeWhile (\<lambda>c. c \<noteq> CHR '','') line = rn))
         \<and> (\<forall>f. done_status (map f nodes) = done_status nodes)"
proof (intro conjI allI impI)
  from update_written [OF assms] obtain old new where
    t: "fs log_csv = Some old" and
    n: "snd (update_body fault os log_csv rn (done_status nodes) fs) log_csv = Some new" and
    w: "new = write_text os
              (concat (map (rewrite_line rn (done_status nodes)) (readlines (read_text old))))" and
    l: "readlines (read_text new)
          = map (rewrite_line rn (done_status nodes)) (readlines (read_text old))"
    by blast
  from update_report_log_result [of fault os log_csv rn nodes fs] obtain r where
    r: "update_report_log fault os log_csv rn nodes fs = Inr r" and
    f: "files_after r = snd (update_body fault os log_csv rn (done_status nodes) fs)"
    by blast
  from f n have "files_after r log_csv = Some new" by simp
  with t r w l
  show "\<exists>old r new. fs log_csv = Some old
            \<and> update_report_log fault os log_csv rn nodes fs = Inr r
            \<and> files_after r log_csv = Some new
            \<and> new = write_text os
                      (concat (map (rewrite_line rn (done_status nodes)) (readlines (read_text old))))
            \<and> readlines (read_text new)
                = map (rewrite_line rn (done_status nodes)) (readlines (read_text old))"
    by blast
next
  fix line
  assume "startswith line (rn @ '','')"
  from matching_row [OF this, of nodes]
  show "\<exists>parts. rewrite_line rn (done_status nodes) line = join '','' parts @ [CHR 0x0A]
                  \<and> split CHR '','' (join '','' parts) = parts \<and> 2 < length parts
                  \<and> parts ! 2 = (if nodes = [] then '''' else ''True'')"
    by blast
next
  fix line
  assume "\<not> startswith line (rn @ '','')"
  then show "rewrite_line rn (done_status nodes) line = line" by (rule rewrite_line_other)
next
  fix line
  assume "CHR '','' \<notin> set rn"
  then show "startswith line (rn @ '','') \<longleftrightarrow>
               CHR '','' \<in> set line \<and> takeWhile (\<lambda>c. c \<noteq> CHR '','') line = rn"
    using startswith_report_field [of line rn] report_field_startswith [of line rn] by blast
next
  fix f :: "'a \<Rightarrow> 'b"
  show "done_status (map f nodes) = done_status nodes" by (simp add: done_status_def)
qed

lemma example_lines:
  "readlines (read_text example_master_log)
     = [''Report,Path,Done'' @ [CHR 0x0A], ''5,p,'' @ [CHR 0x0A], ''6,q,'' @ [CHR 0x0A]]"
  by (simp add: example_master_log_def)

lemma example_row: "rewrite_line ''5'' ''True'' (''5,p,'' @ [CHR 0x0A]) = ''5,p,True'' @ [CHR 0x0A]"
  by (simp add: rewrite_line_def stripped_fields_def startswith_def strip_def is_space_def pad_parts_eq)

lemma example_update:
  "fst (update_body NoFault Posix ''log.csv'' ''5'' (done_status [()]) [''log.csv'' \<mapsto> example_master_log]) = None"
  by (simp add: update_body_def Let_def)

theorem master_log_done_column_witness:
  "fst (update_body NoFault Posix ''log.csv'' ''5'' (done_status [()]) [''log.csv'' \<mapsto> example_master_log]) = None
   \<and> (\<exists>r new. update_report_log NoFault Posix ''log.csv'' ''5'' [()] [''log.csv'' \<mapsto> example_master_log] = Inr r
            \<and> files_after r ''log.csv'' = Some new
            \<and> readlines (read_text new)
                = [''Report,Path,Done'' @ [CHR 0x0A], ''5,p,True'' @ [CHR 0x0A], ''6,q,'' @ [CHR 0x0A]])"
proof -
  note h = example_update
  have q: "rewrite_line ''5'' ''True'' (''Report,Path,Done'' @ [CHR 0x0A]) = ''Report,Path,Done'' @ [CHR 0x0A]"
          "rewrite_line ''5'' ''True'' (''6,q,'' @ [CHR 0x0A]) = ''6,q,'' @ [CHR 0x0A]"
    by (simp_all add: rewrite_line_def startswith_def)
  have d: "done_status [()] = ''True''" by (simp add: done_status_def)
  from master_log_done_column [OF h] obtain old r new where
    o: "[''log.csv'' \<mapsto> example_master_log] ''log.csv'' = Some old" and
    r: "update_report_log NoFault Posix ''log.csv'' ''5'' [()] [''log.csv'' \<mapsto> example_master_log] = Inr r" and
    f: "files_after r ''log.csv'' = Some new" and
    l: "readlines (read_text new) = map (rewrite_line ''5'' (done_status [()])) (readlines (read_text old))"
    by blast
  from o have "old = example_master_log" by simp
  with l have "readlines (read_text new)
                = [''Report,Path,Done'' @ [CHR 0x0A], ''5,p,True'' @ [CHR 0x0A], ''6,q,'' @ [CHR 0x0A]]"
    by (simp only: example_lines d list.map q example_row)
  with h r f show ?thesis by blast
qed

theorem master_log_done_column_counterexample:
  "rewrite_line ''5'' (done_status [()]) (''5'' @ [CHR 0x0A]) = ''5'' @ [CHR 0x0A]
   \<and> rewrite_line ''5'' (done_status [()]) (''5,'' @ [CHR 0x22] @ ''a,b'' @ [CHR 0x22] @ '','' @ [CHR 0x0A])
       = ''5,'' @ [CHR 0x22] @ ''a,True,'' @ [CHR 0x0A]"
  by (simp add: rewrite_line_def stripped_fields_def startswith_def strip_def is_space_def
        pad_parts_eq done_status_def)

lemma update_body_fails_iff:
  "fst (update_body fault os log_csv rn ds fs) \<noteq> None \<longleftrightarrow>
     (case fs log_csv of
        None \<Rightarrow> True
      | Some old \<Rightarrow> fault = OpenTempFails \<or> fault = ReplaceFails
                      \<or> (\<exists>k. fault = WriteFails k \<and> k < length (readlines (read_text old))))"
  by (cases "fs log_csv"; cases fault)
     (auto simp add: update_body_def Let_def split: if_splits)

text \<open>
  Claim C5. The master status log update is atomic: the new content is written to a
  temporary file, which is renamed over the original only after all rows have been written,
  and any exception raised during the update is caught and logged; on any failure the
  original file's content is unchanged and the exit handler does not propagate the
  exception. Here: the handler always returns normally; when the body raised, the log file
  is what it was and the failure is printed; when it did not, the log file holds all the
  rewritten rows and the temporary file is gone; and the body raises exactly when the log
  cannot be opened, the temporary file cannot be opened, a write fails or the rename fails.
\<close>

theorem master_log_update_atomic:
  "\<exists>r. update_report_log fault os log_csv rn nodes fs = Inr r
      \<and> (fst (update_body fault os log_csv rn (done_status nodes) fs) \<noteq> None \<longrightarrow>
            files_after r log_csv = fs log_csv \<and> printed r = ''Failed to update log file'')
      \<and> (fst (update_body fault os log_csv rn (done_status nodes) fs) = None \<longrightarrow>
            (\<exists>old. fs log_csv = Some old
               \<and> files_after r log_csv
                    = Some (write_text os (concat (map (rewrite_line rn (done_status nodes))
                                                     (readlines (read_text old)))))
               \<and> files_after r (log_csv @ ''.tmp'') = None))
      \<and> (fst (update_body fault os log_csv rn (done_status nodes) fs) \<noteq> None \<longleftrightarrow>
            (case fs log_csv of
               None \<Rightarrow> True
             | Some old \<Rightarrow> fault = OpenTempFails \<or> fault = ReplaceFails
                             \<or> (\<exists>k. fault = WriteFails k \<and> k < length (readlines (read_text old)))))"
proof -
  from update_report_log_result [of fault os log_csv rn nodes fs] obtain r where
    r: "update_report_log fault os log_csv rn nodes fs = Inr r" and
    f: "files_after r = snd (update_body fault os log_csv rn (done_status nodes) fs)" and
    p: "fst (update_body fault os log_csv rn (done_status nodes) fs) \<noteq> None
          \<longrightarrow> printed r = ''Failed to update log file''"
    by blast
  have a: "fst (update_body fault os log_csv rn (done_status nodes) fs) \<noteq> None \<longrightarrow>
            files_after r log_csv = fs log_csv \<and> printed r = ''Failed to update log file''"
    using p f update_body_failure [of fault os log_csv rn "done_status nodes" fs] by simp
  have b: "fst (update_body fault os log_csv rn (done_status nodes) fs) = None \<longrightarrow>
            (\<exists>old. fs log_csv = Some old
               \<and> files_after r log_csv
                    = Some (write_text os (concat (map (rewrite_line rn (done_status nodes))
                                                     (readlines (read_text old)))))
               \<and> files_after r (log_csv @ ''.tmp'') = None)"
    using f update_body_success [of fault os log_csv rn "done_status nodes" fs] by simp
  note c = update_body_fails_iff [of fault os log_csv rn "done_status nodes" fs]
  show ?thesis
    by (rule exI [where x = r], intro conjI) (rule r a b c)+
qed

theorem master_log_update_atomic_witness:
  "fst (update_body (WriteFails 1) Posix ''log.csv'' ''5'' (done_status [()])
          [''log.csv'' \<mapsto> example_master_log]) \<noteq> None
   \<and> (\<exists>r. update_report_log (WriteFails 1) Posix ''log.csv'' ''5'' [()]
              [''log.csv'' \<mapsto> example_master_log] = Inr r
          \<and> files_after r ''log.csv'' = Some example_master_log
          \<and> printed r = ''Failed to update log file'')"
proof -
  have h: "fst (update_body (WriteFails 1) Posix ''log.csv'' ''5'' (done_status [()])
                  [''log.csv'' \<mapsto> example_master_log]) \<noteq> None"
    by (simp add: update_body_def Let_def example_lines)
  from master_log_update_atomic [of "WriteFails 1" Posix "''log.csv''" "''5''" "[()]"
         "[''log.csv'' \<mapsto> example_master_log]"] h
  show ?thesis by auto
qed

text \<open>
  Claim C8 says that every line that does not begin with the report number followed by a
  comma is copied unchanged, and that in the matching row only the third field is modified,
  the other fields keeping their previous values. The row is stripped of white space at
  both ends before it is split, so a last field that ends in white space loses it: the row
  \<open>5,p,,x \<close> (with a space after \<open>x\<close>) is written back as \<open>5,p,True,x\<close>. And the files are
  read and written as text, so every line, matching or not, is written with the platform's
  line end whatever its line end was. As amended: when the update runs without an exception
  the new file is the old one read as text (\<open>CR LF\<close> and \<open>CR\<close> read as \<open>LF\<close>), line by line,
  each line rewritten and then written with the platform's line end, and read as text it
  has these rewritten lines; a text without \<open>CR\<close> that was written with the platform's line
  ends is read back as it was; a line that does not begin with the report number followed by
  a comma is left as it is; a matching row is stripped of the white space at its two ends,
  split at the commas and padded with empty fields to three, and only the third of these
  fields is replaced, every other one keeping its value; for a row with no white space at
  its ends (but the line end) these are the row's own fields.
\<close>

theorem master_log_frame:
  "(fst (update_body fault os log_csv rn (done_status nodes) fs) = None \<longrightarrow>
      (\<exists>old new. fs log_csv = Some old
         \<and> snd (update_body fault os log_csv rn (done_status nodes) fs) log_csv = Some new
         \<and> new = write_text os
                   (concat (map (rewrite_line rn (done_status nodes)) (readlines (read_text old))))
         \<and> readlines (read_text new)
             = map (rewrite_line rn (done_status nodes)) (readlines (read_text old))))
   \<and> (\<forall>t. CHR 0x0D \<notin> set t \<longrightarrow> read_text (write_text os t) = t)
   \<and> (\<forall>line. \<not> startswith line (rn @ '','') \<longrightarrow> rewrite_line rn (done_status nodes) line = line)
   \<and> (\<forall>line. startswith line (rn @ '','') \<longrightarrow>
        (\<exists>out. rewrite_line rn (done_status nodes) line = join '','' out @ [CHR 0x0A]
           \<and> split CHR '','' (join '','' out) = out
           \<and> length out = length (stripped_fields line)
           \<and> (\<forall>i < length out. i \<noteq> 2 \<longrightarrow> out ! i = stripped_fields line ! i)))
   \<and> (\<forall>line. stripped_fields line
          = split CHR '','' (strip line) @ replicate (3 - length (split CHR '','' (strip line))) [])
   \<and> (\<forall>row. strip row = row \<longrightarrow> strip (row @ [CHR 0x0A]) = row)"
proof (intro conjI allI impI)
  assume "fst (update_body fault os log_csv rn (done_status nodes) fs) = None"
  then show "\<exists>old new. fs log_csv = Some old
         \<and> snd (update_body fault os log_csv rn (done_status nodes) fs) log_csv = Some new
         \<and> new = write_text os
                   (concat (map (rewrite_line rn (done_status nodes)) (readlines (read_text old))))
         \<and> readlines (read_text new)
             = map (rewrite_line rn (done_status nodes)) (readlines (read_text old))"
    by (rule update_written)
next
  fix t :: string
  assume "CHR 0x0D \<notin> set t"
  then show "read_text (write_text os t) = t" by (rule read_write_text)
next
  fix line
  assume "\<not> startswith line (rn @ '','')"
  then show "rewrite_line rn (done_status nodes) line = line" by (rule rewrite_line_other)
next
  fix line
  assume s: "startswith line (rn @ '','')"
  from matching_row [OF s, of nodes] obtain out where
    o: "rewrite_line rn (done_status nodes) line = join '','' out @ [CHR 0x0A]"
       "split CHR '','' (join '','' out) = out"
       "out = (stripped_fields line)[2 := done_status nodes]"
    by blast
  from o(3) have "length out = length (stripped_fields line)" by simp
  moreover from o(3) have "\<forall>i < length out. i \<noteq> 2 \<longrightarrow> out ! i = stripped_fields line ! i" by simp
  ultimately show "\<exists>out. rewrite_line rn (done_status nodes) line = join '','' out @ [CHR 0x0A]
           \<and> split CHR '','' (join '','' out) = out
           \<and> length out = length (stripped_fields line)
           \<and> (\<forall>i < length out. i \<noteq> 2 \<longrightarrow> out ! i = stripped_fields line ! i)"
    using o(1,2) by blast
next
  fix line
  show "stripped_fields line
          = split CHR '','' (strip line) @ replicate (3 - length (split CHR '','' (strip line))) []"
    by (simp add: stripped_fields_def pad_parts_eq)
next
  fix row
  assume "strip row = row"
  then show "strip (row @ [CHR 0x0A]) = row" by (rule strip_newline)
qed

theorem master_log_frame_witness:
  "\<not> startswith (''6,q,'' @ [CHR 0x0A]) (''5'' @ '','')
   \<and> rewrite_line ''5'' (done_status [()]) (''6,q,'' @ [CHR 0x0A]) = ''6,q,'' @ [CHR 0x0A]
   \<and> startswith (''5,p,,x'' @ [CHR 0x0A]) (''5'' @ '','')
   \<and> strip ''5,p,,x'' = ''5,p,,x''
   \<and> stripped_fields (''5,p,,x'' @ [CHR 0x0A]) = [''5'', ''p'', '''', ''x'']
   \<and> (\<exists>out. rewrite_line ''5'' (done_status [()]) (''5,p,,x'' @ [CHR 0x0A]) = join '','' out @ [CHR 0x0A]
           \<and> split CHR '','' (join '','' out) = out
           \<and> length out = length (stripped_fields (''5,p,,x'' @ [CHR 0x0A]))
           \<and> out ! 0 = ''5'' \<and> out ! 1 = ''p'' \<and> out ! 3 = ''x'')
   \<and> fst (update_body NoFault Windows ''log.csv'' ''5'' (done_status [()])
            [''log.csv'' \<mapsto> ''6,q,'' @ [CHR 0x0A]]) = None
   \<and> snd (update_body NoFault Windows ''log.csv'' ''5'' (done_status [()])
            [''log.csv'' \<mapsto> ''6,q,'' @ [CHR 0x0A]]) ''log.csv''
       = Some (''6,q,'' @ [CHR 0x0D, CHR 0x0A])"
proof -
  have n: "\<not> startswith (''6,q,'' @ [CHR 0x0A]) (''5'' @ '','')" by (simp add: startswith_def)
  have m: "startswith (''5,p,,x'' @ [CHR 0x0A]) (''5'' @ '','')" by (simp add: startswith_def)
  have s: "strip ''5,p,,x'' = ''5,p,,x''" by (simp add: strip_def is_space_def)
  have f: "stripped_fields (''5,p,,x'' @ [CHR 0x0A]) = [''5'', ''p'', '''', ''x'']"
    by (simp add: stripped_fields_def strip_def is_space_def pad_parts_eq)
  have h: "fst (update_body NoFault Windows ''log.csv'' ''5'' (done_status [()])
                 [''log.csv'' \<mapsto> ''6,q,'' @ [CHR 0x0A]]) = None"
    by (simp add: update_body_def Let_def)
  note t = master_log_frame [of NoFault Windows "''log.csv''" "''5''" "[()]"
             "[''log.csv'' \<mapsto> ''6,q,'' @ [CHR 0x0A]]"]
  from t n have a: "rewrite_line ''5'' (done_status [()]) (''6,q,'' @ [CHR 0x0A]) = ''6,q,'' @ [CHR 0x0A]"
    by blast
  from t m obtain out where
    o: "rewrite_line ''5'' (done_status [()]) (''5,p,,x'' @ [CHR 0x0A]) = join '','' out @ [CHR 0x0A]"
       "split CHR '','' (join '','' out) = out"
       "length out = length (stripped_fields (''5,p,,x'' @ [CHR 0x0A]))"
       "\<forall>i < length out. i \<noteq> 2 \<longrightarrow> out ! i = stripped_fields (''5,p,,x'' @ [CHR 0x0A]) ! i"
    by blast
  from o(3,4) f have p: "out ! 0 = ''5'' \<and> out ! 1 = ''p'' \<and> out ! 3 = ''x''" by simp
  from t h obtain new where
    w: "snd (update_body NoFault Windows ''log.csv'' ''5'' (done_status [()])
              [''log.csv'' \<mapsto> ''6,q,'' @ [CHR 0x0A]]) ''log.csv'' = Some new"
       "new = write_text Windows (concat (map (rewrite_line ''5'' (done_status [()]))
                (readlines (read_text (''6,q,'' @ [CHR 0x0A])))))"
    by auto
  from w(2) a have "new = ''6,q,'' @ [CHR 0x0D, CHR 0x0A]" by (simp add: write_text_def)
  with w(1) have e: "snd (update_body NoFault Windows ''log.csv'' ''5'' (done_status [()])
            [''log.csv'' \<mapsto> ''6,q,'' @ [CHR 0x0A]]) ''log.csv''
       = Some (''6,q,'' @ [CHR 0x0D, CHR 0x0A])" by simp
  from n a m s f o(1,2,3) p h e show ?thesis by blast
qed

theorem master_log_frame_counterexample:
  "startswith (''5,p,,x '' @ [CHR 0x0A]) (''5'' @ '','')
   \<and> split CHR '','' ''5,p,,x '' = [''5'', ''p'', '''', ''x '']
   \<and> rewrite_line ''5'' ''True'' (''5,p,,x '' @ [CHR 0x0A]) = ''5,p,True,x'' @ [CHR 0x0A]
   \<and> split CHR '','' ''5,p,True,x'' = [''5'', ''p'', ''True'', ''x'']"
  by (simp add: rewrite_line_def stripped_fields_def startswith_def strip_def is_space_def pad_parts_eq)

section \<open>Properties of the reconciliation\<close>

subsection \<open>File names ending in a number\<close>

lemma replace_match:
  "old \<noteq> [] \<Longrightarrow> s \<noteq> [] \<Longrightarrow> startswith s old \<Longrightarrow>
   replace old new s = new @ replace old new (drop (length old) s)"
  by (subst replace.simps) simp

lemma replace_skip:
  "old \<noteq> [] \<Longrightarrow> s \<noteq> [] \<Longrightarrow> \<not> startswith s old \<Longrightarrow>
   replace old new s = hd s # replace old new (tl s)"
  by (subst replace.simps) simp

lemma startswith_length: "startswith a old \<Longrightarrow> length old \<le> length a"
proof -
  assume "startswith a old"
  then have "length (take (length old) a) = length old" by (simp add: startswith_def)
  then show ?thesis by simp
qed

lemma startswith_append_sep:
  assumes "c \<notin> set old"
  shows "startswith (a @ c # b) old \<longleftrightarrow> startswith a old"
proof (cases "length old \<le> length a")
  case True
  then show ?thesis by (simp add: startswith_def)
next
  case False
  then have l: "length a < length old" by simp
  then have n1: "\<not> startswith a old" using startswith_length [of a old] by auto
  have n2: "\<not> startswith (a @ c # b) old"
  proof
    assume "startswith (a @ c # b) old"
    then have e: "take (length old) (a @ c # b) = old" by (simp add: startswith_def)
    from l have "take (length old) (a @ c # b) ! length a = c"
      by (simp add: nth_append)
    with e have "old ! length a = c" by simp
    with l have "c \<in> set old" using nth_mem [of "length a" old] by simp
    with assms show False by simp
  qed
  from n1 n2 show ?thesis by simp
qed

lemma replace_append_sep:
  assumes "c \<notin> set old" "old \<noteq> []"
  shows "replace old new (a @ c # b) = replace old new a @ c # replace old new b"
proof (induction a rule: length_induct)
  case (1 a)
  show ?case
  proof (cases a)
    case Nil
    from assms have "\<not> startswith (c # b) old"
      by (cases old) (auto simp add: startswith_def)
    then have "replace old new (c # b) = c # replace old new b"
      using assms(2) replace_skip [of old "c # b" new] by simp
    moreover have "replace old new [] = []" using assms(2) by (rule replace_Nil)
    ultimately show ?thesis using Nil by (simp only: append_Nil)
  next
    case (Cons x xs)
    then have ne: "a \<noteq> []" and ne2: "a @ c # b \<noteq> []" by simp_all
    show ?thesis
    proof (cases "startswith a old")
      case True
      then have le: "length old \<le> length a" by (rule startswith_length)
      from True have s: "startswith (a @ c # b) old" by (simp add: startswith_append_sep [OF assms(1)])
      from le assms(2) ne have "length (drop (length old) a) < length a" by (cases old) auto
      with 1 have ih: "replace old new (drop (length old) a @ c # b)
                     = replace old new (drop (length old) a) @ c # replace old new b"
        by blast
      from le have d: "drop (length old) (a @ c # b) = drop (length old) a @ c # b" by simp
      have "replace old new (a @ c # b) = new @ replace old new (drop (length old) (a @ c # b))"
        using assms(2) ne2 s by (rule replace_match)
      also have "\<dots> = new @ replace old new (drop (length old) a) @ c # replace old new b"
        by (simp only: d ih)
      also have "\<dots> = replace old new a @ c # replace old new b"
        using replace_match [OF assms(2) ne True, of new] by simp
      finally show ?thesis .
    next
      case False
      then have s: "\<not> startswith (a @ c # b) old" by (simp add: startswith_append_sep [OF assms(1)])
      from Cons 1 have ih: "replace old new (xs @ c # b) = replace old new xs @ c # replace old new b"
        by simp
      have "replace old new (a @ c # b) = hd (a @ c # b) # replace old new (tl (a @ c # b))"
        using assms(2) ne2 s by (rule replace_skip)
      also have "\<dots> = x # replace old new (xs @ c # b)" by (simp add: Cons)
      also have "\<dots> = x # replace old new xs @ c # replace old new b" by (simp only: ih)
      also have "\<dots> = replace old new a @ c # replace old new b"
        using replace_skip [OF assms(2) ne False, of new] by (simp add: Cons)
      finally show ?thesis .
    qed
  qed
qed

lemma digits_table:
  "list_all (\<lambda>n. is_digit (digits ! n) \<and> digit_val (digits ! n) = n) [0..<10]"
  by (simp add: upt_rec digits_def is_digit_def digit_val_def)

lemma digits_nth: "n < 10 \<Longrightarrow> is_digit (digits ! n) \<and> digit_val (digits ! n) = n"
  using digits_table by (simp add: list_all_iff)

lemma str_nat_digits: "str_nat n \<noteq> [] \<and> list_all is_digit (str_nat n)"
proof (induction n rule: str_nat.induct)
  case (1 n)
  show ?case
  proof (cases "n < 10")
    case True
    then show ?thesis using digits_nth [of n] by (subst str_nat.simps, subst str_nat.simps) simp
  next
    case False
    with 1 digits_nth [of "n mod 10"] show ?thesis
      by (subst str_nat.simps, subst (2) str_nat.simps) simp
  qed
qed

lemma fold_digits_append:
  "fold (\<lambda>c n. 10 * n + digit_val c) (a @ [d]) acc = 10 * fold (\<lambda>c n. 10 * n + digit_val c) a acc + digit_val d"
  by simp

lemma str_nat_value: "fold (\<lambda>c n. 10 * n + digit_val c) (str_nat n) 0 = n"
proof (induction n rule: str_nat.induct)
  case (1 n)
  show ?case
  proof (cases "n < 10")
    case True
    then show ?thesis using digits_nth [of n] by (subst str_nat.simps) simp
  next
    case False
    with 1 digits_nth [of "n mod 10"] show ?thesis
      by (subst str_nat.simps) simp
  qed
qed

lemma digit_facts:
  "is_digit c \<Longrightarrow> \<not> is_int_space c \<and> c \<noteq> CHR ''-'' \<and> c \<noteq> CHR ''+'' \<and> c \<noteq> CHR ''_'' \<and> c \<noteq> CHR ''.''"
  by (auto simp add: is_digit_def digits_def is_int_space_def)

lemma int_strip_digits:
  assumes "list_all is_digit ds"
  shows "rev (dropWhile is_int_space (rev (dropWhile is_int_space ds))) = ds"
proof -
  have a: "\<And>xs. list_all is_digit xs \<Longrightarrow> dropWhile is_int_space xs = xs"
  proof -
    fix xs assume "list_all is_digit xs"
    then show "dropWhile is_int_space xs = xs" using digit_facts by (cases xs) auto
  qed
  from assms have "list_all is_digit (rev ds)" by (simp add: list_all_iff)
  with a [OF assms] a [of "rev ds"] show ?thesis by simp
qed

lemma writable_unlimited: "writable 0 n"
  by (simp add: writable_def over_limit_def)

lemma py_int_str_nat: "writable L n \<Longrightarrow> py_int L (str_nat n) = Some (int n)"
proof -
  assume w: "writable L n"
  from str_nat_digits [of n] have ne: "str_nat n \<noteq> []" and d: "list_all is_digit (str_nat n)"
    by simp_all
  from ne d have "is_digit (hd (str_nat n))" by (cases "str_nat n") auto
  then have h: "hd (str_nat n) \<noteq> CHR ''-''" "hd (str_nat n) \<noteq> CHR ''+''"
    using digit_facts by blast+
  from w have o: "\<not> over_limit L (length (str_nat n))" by (simp add: writable_def)
  show ?thesis
    using ne d h o by (simp add: py_int_def int_strip_digits Let_def str_nat_value)
qed

lemma py_str_cases:
  "py_str L n = (if writable L n then Inr (str_nat n) else Inl ValueError)"
  by (simp add: py_str_def writable_def)

lemma numbered_name_cases:
  "numbered_name L base n =
     (if writable L n then Inr (base @ ''_'' @ str_nat n @ ''.json'') else Inl ValueError)"
  by (simp add: numbered_name_def py_str_cases)

lemma length_str_nat_mono: "m \<le> n \<Longrightarrow> length (str_nat m) \<le> length (str_nat n)"
proof (induction n arbitrary: m rule: str_nat.induct)
  case (1 n)
  show ?case
  proof (cases "n < 10")
    case True
    with "1.prems" have "m < 10" by simp
    with True show ?thesis by (subst str_nat.simps, subst (2) str_nat.simps) simp
  next
    case False
    note big = this
    show ?thesis
    proof (cases "m < 10")
      case True
      have "length (str_nat m) = 1" using True by (subst str_nat.simps) simp
      moreover have "1 \<le> length (str_nat n)" using big by (subst str_nat.simps) simp
      ultimately show ?thesis by simp
    next
      case False
      from "1.prems" have "m div 10 \<le> n div 10" by (rule div_le_mono)
      with "1.IH" big have "length (str_nat (m div 10)) \<le> length (str_nat (n div 10))" by simp
      with False big show ?thesis by (subst str_nat.simps, subst (2) str_nat.simps) simp
    qed
  qed
qed

lemma writable_mono: "writable L n \<Longrightarrow> m \<le> n \<Longrightarrow> writable L m"
  using length_str_nat_mono [of m n] by (auto simp add: writable_def over_limit_def)

lemma split_append: "split sep (a @ sep # b) = split sep a @ split sep b"
proof (induction a)
  case Nil
  show ?case by simp
next
  case (Cons c a)
  obtain p ps where p: "split sep a = p # ps"
    using split_nonempty [of sep a] by (cases "split sep a") auto
  with Cons show ?case by simp
qed

lemma last_split_append:
  "sep \<notin> set b \<Longrightarrow> last (split sep (a @ sep # b)) = b"
  by (simp add: split_append split_plain)

lemma replace_json_digits:
  "list_all is_digit ds \<Longrightarrow> replace ''.json'' '''' (ds @ ''.json'') = ds"
proof (induction ds)
  case Nil
  show ?case by (simp add: startswith_def)
next
  case (Cons d ds)
  then have "d \<noteq> CHR ''.''" using digit_facts [of d] by simp
  then have "\<not> startswith ((d # ds) @ ''.json'') ''.json''" by (simp add: startswith_def)
  then have "replace ''.json'' '''' ((d # ds) @ ''.json'') = d # replace ''.json'' '''' (ds @ ''.json'')"
    using replace_skip [of "''.json''" "(d # ds) @ ''.json''" "''''"] by simp
  with Cons show ?case by simp
qed

lemma number_part_generated:
  assumes "writable L n"
  shows "number_part L (base @ ''_'' @ str_nat n @ ''.json'') = Some (int n)"
proof -
  have d: "list_all is_digit (str_nat n)" using str_nat_digits [of n] by simp
  then have u: "CHR ''_'' \<notin> set (str_nat n)" using digit_facts by (auto simp add: list_all_iff)
  have e: "base @ ''_'' @ str_nat n @ ''.json'' = base @ CHR ''_'' # (str_nat n @ ''.json'')"
    by simp
  have "replace ''.json'' '''' (base @ CHR ''_'' # (str_nat n @ ''.json''))
          = replace ''.json'' '''' base @ CHR ''_'' # replace ''.json'' '''' (str_nat n @ ''.json'')"
    by (rule replace_append_sep) simp_all
  also have "\<dots> = replace ''.json'' '''' base @ CHR ''_'' # str_nat n"
    using d by (simp only: replace_json_digits)
  finally have r: "replace ''.json'' '''' (base @ ''_'' @ str_nat n @ ''.json'')
                     = replace ''.json'' '''' base @ CHR ''_'' # str_nat n"
    by (simp only: e)
  show ?thesis
    by (simp only: number_part_def r last_split_append [OF u] py_int_str_nat [OF assms])
qed

lemma str_nat_inj: "str_nat m = str_nat n \<Longrightarrow> m = n"
  by (metis py_int_str_nat writable_unlimited option.inject of_nat_eq_iff)

subsection \<open>The numbering invariant of the save loop\<close>

lemma existing_file_csv_iff:
  "existing_file_csv log enc =
     (if enc @ ''.json'' \<in> set (map fst log) then Some (enc @ ''.json'') else None)"
  unfolding existing_file_csv_def by (induction log) auto

lemma choose_name_csv_cases:
  "choose_name_csv L st node =
     (if csv_fits L st node then Inr (csv_name st node) else Inl ValueError)"
  by (simp add: choose_name_csv_def existing_file_csv_iff numbered_name_cases csv_name_def
        csv_fits_def Let_def)

lemma save_markup_csv_cases:
  "save_markup_csv L now st node =
     (if csv_fits L st node then Inr (csv_step now st node) else Inl ValueError)"
  by (simp add: save_markup_csv_def choose_name_csv_cases csv_step_def split: prod.splits)

lemma save_markup_csv_Inr:
  "save_markup_csv L now st node = Inr st' \<longleftrightarrow> csv_fits L st node \<and> st' = csv_step now st node"
  by (auto simp add: save_markup_csv_cases)

lemma save_all_csv_Cons:
  "save_all_csv L now (node # nodes) st = Inr st'' \<Longrightarrow>
   \<exists>st'. save_markup_csv L now st node = Inr st' \<and> save_all_csv L now nodes st' = Inr st''"
  by (cases "save_markup_csv L now st node") auto

lemma save_all_csv_append:
  "save_all_csv L now (a @ b) st =
     (case save_all_csv L now a st of Inl e \<Rightarrow> Inl e | Inr st' \<Rightarrow> save_all_csv L now b st')"
  by (induction a arbitrary: st) (auto split: sum.splits)

lemma save_all_csv_steps:
  "save_all_csv L now nodes st = Inr st' \<Longrightarrow> st' = csv_steps now nodes st"
proof (induction nodes arbitrary: st)
  case Nil
  then show ?case by (simp add: csv_steps_def)
next
  case (Cons node nodes)
  from save_all_csv_Cons [OF Cons.prems] obtain st1 where
    a: "save_markup_csv L now st node = Inr st1" and b: "save_all_csv L now nodes st1 = Inr st'"
    by blast
  from a have "st1 = csv_step now st node" by (simp add: save_markup_csv_Inr)
  with Cons.IH [OF b] show ?case by (simp add: csv_steps_def)
qed

lemma fold_max_ge:
  "acc \<le> fold (\<lambda>markup mx. case number_part L markup of
                                 Some n \<Rightarrow> if n > int mx then nat n else mx
                               | None \<Rightarrow> mx) keys acc"
proof (induction keys arbitrary: acc)
  case Nil
  show ?case by simp
next
  case (Cons k keys)
  let ?f = "\<lambda>markup mx. case number_part L markup of
                 Some n \<Rightarrow> if n > int mx then nat n else mx | None \<Rightarrow> mx"
  have "acc \<le> ?f k acc" by (auto split: option.splits)
  also have "\<dots> \<le> fold ?f keys (?f k acc)" by (rule Cons.IH)
  finally show ?case by simp
qed

lemma fold_max_bound:
  "k \<in> set keys \<Longrightarrow> number_part L k = Some m \<Longrightarrow>
   m \<le> int (fold (\<lambda>markup mx. case number_part L markup of
                                 Some n \<Rightarrow> if n > int mx then nat n else mx
                               | None \<Rightarrow> mx) keys acc)"
proof (induction keys arbitrary: acc)
  case Nil
  then show ?case by simp
next
  case (Cons a keys)
  let ?f = "\<lambda>markup mx. case number_part L markup of
                 Some n \<Rightarrow> if n > int mx then nat n else mx | None \<Rightarrow> mx"
  show ?case
  proof (cases "k = a")
    case True
    with Cons.prems have "m \<le> int (?f a acc)" by auto
    also have "\<dots> \<le> int (fold ?f keys (?f a acc))" using fold_max_ge [of "?f a acc" L keys] by simp
    finally show ?thesis by simp
  next
    case False
    with Cons.prems have "k \<in> set keys" by simp
    from Cons.IH [OF this Cons.prems(2), of "?f a acc"] show ?thesis by simp
  qed
qed

lemma highest_number_bound:
  "k \<in> set keys \<Longrightarrow> number_part L k = Some m \<Longrightarrow> m \<le> int (highest_number L keys)"
  using fold_max_bound [of k keys L m 0] by (simp add: highest_number_def)

lemma last_number_eq: "last_number L keys = highest_number L keys"
  by (cases keys) (simp_all add: last_number_def highest_number_def)

lemma last_number_bound:
  "k \<in> set keys \<Longrightarrow> number_part L k = Some m \<Longrightarrow> m \<le> int (last_number L keys)"
  by (simp add: last_number_eq highest_number_bound)

lemma numbered_initial: "numbered L (initial_csv L log files)"
  using last_number_bound by (auto simp add: numbered_def initial_csv_def)

lemma update_absent: "k \<notin> fst ` set al \<Longrightarrow> AList.update k v al = al @ [(k, v)]"
  by (induction al) auto

lemma map_entry_keys: "map fst (AList.map_entry k f al) = map fst al"
  by (induction al) auto

lemma csv_step_max:
  "max_number (csv_step now st node) = snd (csv_name st node)"
  by (simp add: csv_step_def save_node_csv_def Let_def split: prod.splits save_outcome.splits)

lemma csv_step_current:
  "current_filenames (csv_step now st node)
     = insert (fst (csv_name st node)) (current_filenames st)"
  by (simp add: csv_step_def save_node_csv_def Let_def split: prod.splits save_outcome.splits)

lemma csv_step_log:
  "markup_log (csv_step now st node) =
     (case node_save node of
        Saved dumped \<Rightarrow>
          (if fst (csv_name st node) \<notin> set (map fst (markup_log st))
           then AList.update (fst (csv_name st node))
                  \<lparr>created_at = now, content = json_content dumped, deleted_at = ''''\<rparr>
                  (markup_log st)
           else AList.map_entry (fst (csv_name st node))
                  (\<lambda>e. e\<lparr>content := json_content dumped, deleted_at := ''''\<rparr>) (markup_log st))
      | _ \<Rightarrow> markup_log st)"
  by (simp add: csv_step_def save_node_csv_def Let_def split: prod.splits save_outcome.splits)

lemma csv_step_keys:
  "set (map fst (markup_log (csv_step now st node)))
     \<subseteq> insert (fst (csv_name st node)) (set (map fst (markup_log st)))
   \<and> set (map fst (markup_log st)) \<subseteq> set (map fst (markup_log (csv_step now st node)))"
  by (auto simp add: csv_step_log dom_map_entry dom_update split: save_outcome.splits)

lemma csv_name_mono: "max_number st \<le> snd (csv_name st node)"
  by (simp add: csv_name_def)

lemma csv_name_number:
  assumes "numbered L st" "csv_fits L st node" "number_part L (fst (csv_name st node)) = Some m"
  shows "m \<le> int (snd (csv_name st node))"
proof (cases "encode_filename (node_name node) @ ''.json'' \<in> set (map fst (markup_log st))")
  case True
  with assms show ?thesis by (auto simp add: csv_name_def numbered_def)
next
  case False
  with assms(2) have "writable L (max_number st + 1)" by (simp add: csv_fits_def)
  from number_part_generated [OF this, of "encode_filename (node_name node)"] False assms(3)
  show ?thesis by (simp add: csv_name_def)
qed

lemma numbered_step:
  assumes "numbered L st" "csv_fits L st node"
  shows "numbered L (csv_step now st node)"
  unfolding numbered_def
proof (intro ballI allI impI)
  fix f m
  assume f: "f \<in> set (map fst (markup_log (csv_step now st node)))
               \<union> current_filenames (csv_step now st node)"
    and m: "number_part L f = Some m"
  from f csv_step_keys [of now st node]
  have "f = fst (csv_name st node) \<or> f \<in> set (map fst (markup_log st)) \<union> current_filenames st"
    by (auto simp add: csv_step_current)
  then show "m \<le> int (max_number (csv_step now st node))"
  proof
    assume "f = fst (csv_name st node)"
    with m csv_name_number [OF assms] show ?thesis by (simp add: csv_step_max)
  next
    assume "f \<in> set (map fst (markup_log st)) \<union> current_filenames st"
    with assms(1) m have "m \<le> int (max_number st)" by (auto simp add: numbered_def)
    with csv_name_mono [of st node] show ?thesis by (simp add: csv_step_max)
  qed
qed

lemma numbered_save_all:
  "save_all_csv L now nodes st = Inr st' \<Longrightarrow> numbered L st \<Longrightarrow> numbered L st'"
proof (induction nodes arbitrary: st)
  case Nil
  then show ?case by simp
next
  case (Cons node nodes)
  from save_all_csv_Cons [OF Cons.prems(1)] obtain st1 where
    a: "save_markup_csv L now st node = Inr st1" and b: "save_all_csv L now nodes st1 = Inr st'"
    by blast
  from a have "csv_fits L st node" and "st1 = csv_step now st node"
    by (simp_all add: save_markup_csv_Inr)
  with numbered_step [OF Cons.prems(2), of node now] have "numbered L st1" by simp
  with Cons.IH [OF b] show ?case by simp
qed

lemma fresh_name_new:
  assumes "numbered L st" "writable L (max_number st + 1)"
  shows "base @ ''_'' @ str_nat (max_number st + 1) @ ''.json''
           \<notin> set (map fst (markup_log st)) \<union> current_filenames st"
proof
  assume "base @ ''_'' @ str_nat (max_number st + 1) @ ''.json''
            \<in> set (map fst (markup_log st)) \<union> current_filenames st"
  with assms(1) number_part_generated [OF assms(2), of base]
  have "int (max_number st + 1) \<le> int (max_number st)"
    unfolding numbered_def by blast
  then show False by simp
qed

subsection \<open>The deletion phase\<close>

lemma mark_deleted_log:
  "map_of (markup_log (mark_deleted unset stamp locked k st)) j =
     (if j = k \<and> \<not> (k \<in> folder_files st \<and> k \<in> locked)
      then map_option (\<lambda>e. if unset e then stamp e else e) (map_of (markup_log st) k)
      else map_of (markup_log st) j)"
  by (cases "map_of (markup_log st) k")
     (auto simp add: mark_deleted_def map_of_map_entry)

lemma mark_deleted_files:
  "folder_files (mark_deleted unset stamp locked k st) =
     (if k \<in> folder_files st \<and> k \<in> locked then folder_files st else folder_files st - {k})"
  by (simp add: mark_deleted_def)

lemma mark_deleted_keys:
  "map fst (markup_log (mark_deleted unset stamp locked k st)) = map fst (markup_log st)"
  by (cases "map_of (markup_log st) k") (auto simp add: mark_deleted_def map_entry_keys)

lemma mark_deleted_other:
  "current_filenames (mark_deleted unset stamp locked k st) = current_filenames st
   \<and> max_number (mark_deleted unset stamp locked k st) = max_number st"
  by (simp add: mark_deleted_def)

lemma fold_mark_deleted_keys:
  "map fst (markup_log (fold (mark_deleted unset stamp locked) ks st)) = map fst (markup_log st)"
  by (induction ks arbitrary: st) (simp_all add: mark_deleted_keys)

lemma fold_mark_deleted_other:
  "current_filenames (fold (mark_deleted unset stamp locked) ks st) = current_filenames st
   \<and> max_number (fold (mark_deleted unset stamp locked) ks st) = max_number st"
  by (induction ks arbitrary: st) (simp_all add: mark_deleted_other)

lemma fold_mark_deleted_files:
  "distinct ks \<Longrightarrow>
   folder_files (fold (mark_deleted unset stamp locked) ks st)
     = folder_files st - {k \<in> set ks. \<not> (k \<in> folder_files st \<and> k \<in> locked)}"
proof (induction ks arbitrary: st)
  case Nil
  show ?case by simp
next
  case (Cons k ks)
  then have d: "distinct ks" and n: "k \<notin> set ks" by simp_all
  have "folder_files (fold (mark_deleted unset stamp locked) (k # ks) st)
          = folder_files (mark_deleted unset stamp locked k st)
              - {k' \<in> set ks. \<not> (k' \<in> folder_files (mark_deleted unset stamp locked k st) \<and> k' \<in> locked)}"
    using Cons.IH [OF d] by simp
  also have "\<dots> = folder_files st - {k' \<in> set (k # ks). \<not> (k' \<in> folder_files st \<and> k' \<in> locked)}"
    using n by (auto simp add: mark_deleted_files)
  finally show ?case .
qed

lemma fold_mark_deleted_log:
  "distinct ks \<Longrightarrow>
   map_of (markup_log (fold (mark_deleted unset stamp locked) ks st)) j =
     (if j \<in> set ks \<and> \<not> (j \<in> folder_files st \<and> j \<in> locked)
      then map_option (\<lambda>e. if unset e then stamp e else e) (map_of (markup_log st) j)
      else map_of (markup_log st) j)"
proof (induction ks arbitrary: st)
  case Nil
  show ?case by simp
next
  case (Cons k ks)
  then have d: "distinct ks" and n: "k \<notin> set ks" by simp_all
  have "map_of (markup_log (fold (mark_deleted unset stamp locked) (k # ks) st)) j =
     (if j \<in> set ks \<and> \<not> (j \<in> folder_files (mark_deleted unset stamp locked k st) \<and> j \<in> locked)
      then map_option (\<lambda>e. if unset e then stamp e else e)
             (map_of (markup_log (mark_deleted unset stamp locked k st)) j)
      else map_of (markup_log (mark_deleted unset stamp locked k st)) j)"
    using Cons.IH [OF d] by simp
  also have "\<dots> = (if j \<in> set (k # ks) \<and> \<not> (j \<in> folder_files st \<and> j \<in> locked)
      then map_option (\<lambda>e. if unset e then stamp e else e) (map_of (markup_log st) j)
      else map_of (markup_log st) j)"
    using n by (auto simp add: mark_deleted_files mark_deleted_log)
  finally show ?case .
qed

lemma set_deleted_files:
  "set (deleted_files st) = fst ` set (markup_log st) - current_filenames st"
  by (auto simp add: deleted_files_def)

lemma distinct_deleted_files:
  "distinct (map fst (markup_log st)) \<Longrightarrow> distinct (deleted_files st)"
  by (simp add: deleted_files_def)

lemma detect_deleted_log:
  assumes "distinct (map fst (markup_log st))"
  shows "map_of (markup_log (detect_deleted unset stamp locked st)) j =
     (if j \<in> fst ` set (markup_log st) \<and> j \<notin> current_filenames st
          \<and> \<not> (j \<in> folder_files st \<and> j \<in> locked)
      then map_option (\<lambda>e. if unset e then stamp e else e) (map_of (markup_log st) j)
      else map_of (markup_log st) j)"
  using fold_mark_deleted_log [OF distinct_deleted_files [OF assms], of unset stamp locked st j]
  by (simp add: detect_deleted_def set_deleted_files)

lemma detect_deleted_files:
  assumes "distinct (map fst (markup_log st))"
  shows "folder_files (detect_deleted unset stamp locked st) =
     folder_files st - {k \<in> fst ` set (markup_log st).
                          k \<notin> current_filenames st \<and> \<not> (k \<in> folder_files st \<and> k \<in> locked)}"
  using fold_mark_deleted_files [OF distinct_deleted_files [OF assms], of unset stamp locked st]
  by (auto simp add: detect_deleted_def set_deleted_files)

lemma detect_deleted_keys:
  "map fst (markup_log (detect_deleted unset stamp locked st)) = map fst (markup_log st)"
  by (simp add: detect_deleted_def fold_mark_deleted_keys)

subsection \<open>What the save loops keep\<close>

lemma keeps_refl: "keeps field log log"
  by (simp add: keeps_def)

lemma keeps_trans:
  assumes "keeps field a b" "keeps field b c"
  shows "keeps field a c"
  unfolding keeps_def
proof (intro allI impI)
  fix k e
  assume "map_of a k = Some e"
  with assms(1) obtain e' where b: "map_of b k = Some e'" and f: "field e' = field e"
    unfolding keeps_def by blast
  from assms(2) b obtain e'' where "map_of c k = Some e''" and "field e'' = field e'"
    unfolding keeps_def by blast
  with f show "\<exists>e'. map_of c k = Some e' \<and> field e' = field e" by simp
qed

lemma keeps_update_new:
  assumes "k \<notin> fst ` set log"
  shows "keeps field log (AList.update k v log)"
  unfolding keeps_def
proof (intro allI impI)
  fix j e
  assume j: "map_of log j = Some e"
  then have "j \<in> fst ` set log" by (metis map_of_eq_None_iff option.distinct(1))
  with assms have "j \<noteq> k" by auto
  with j show "\<exists>e'. map_of (AList.update k v log) j = Some e' \<and> field e' = field e"
    by (simp add: update_conv')
qed

lemma keeps_map_entry:
  "(\<And>e. field (f e) = field e) \<Longrightarrow> keeps field log (AList.map_entry k f log)"
  by (auto simp add: keeps_def map_of_map_entry)

lemma keeps_mark_deleted:
  "(\<And>e. field (stamp e) = field e) \<Longrightarrow>
   keeps field (markup_log st) (markup_log (mark_deleted unset stamp locked k st))"
  by (auto simp add: keeps_def mark_deleted_log)

lemma keeps_detect_deleted:
  assumes "\<And>e. field (stamp e) = field e"
  shows "keeps field (markup_log st) (markup_log (detect_deleted unset stamp locked st))"
proof -
  have "keeps field (markup_log st) (markup_log (fold (mark_deleted unset stamp locked) ks st))" for ks
  proof (induction ks arbitrary: st)
    case Nil
    show ?case by (simp add: keeps_refl)
  next
    case (Cons k ks)
    have "keeps field (markup_log st) (markup_log (mark_deleted unset stamp locked k st))"
      using assms by (rule keeps_mark_deleted)
    with Cons [of "mark_deleted unset stamp locked k st"] show ?case
      by (auto intro: keeps_trans)
  qed
  then show ?thesis by (simp add: detect_deleted_def)
qed

lemma keeps_csv_step:
  "keeps created_at (markup_log st) (markup_log (csv_step now st node))"
  by (auto simp add: csv_step_log keeps_refl keeps_update_new keeps_map_entry
        split: save_outcome.splits)

lemma keeps_csv_steps:
  "keeps created_at (markup_log st) (markup_log (csv_steps now nodes st))"
  unfolding csv_steps_def
proof (induction nodes arbitrary: st)
  case Nil
  show ?case by (simp add: keeps_refl)
next
  case (Cons node nodes)
  from keeps_csv_step [of st now node] Cons [of "csv_step now st node"]
  show ?case by (auto intro: keeps_trans)
qed

lemma reconcile_csv_Inr:
  "reconcile_csv L now locked nodes log files = Inr fin \<longleftrightarrow>
     (\<exists>st. after_saves_csv L now nodes log files = Inr st \<and> fin = detect_deleted_csv now locked st)"
  by (auto simp add: reconcile_csv_def after_saves_csv_def split: sum.splits)

lemma after_saves_csv_steps:
  "after_saves_csv L now nodes log files = Inr st \<Longrightarrow>
   st = csv_steps now nodes (initial_csv L log files)"
  unfolding after_saves_csv_def by (rule save_all_csv_steps)

lemma csv_created_at_kept:
  assumes "reconcile_csv L now locked nodes log files = Inr fin"
  shows "keeps created_at log (markup_log fin)"
proof -
  from assms obtain st where
    s: "after_saves_csv L now nodes log files = Inr st" and
    f: "fin = detect_deleted_csv now locked st"
    by (auto simp add: reconcile_csv_Inr)
  have "keeps created_at (markup_log (initial_csv L log files)) (markup_log st)"
    unfolding after_saves_csv_steps [OF s] by (rule keeps_csv_steps)
  moreover have "keeps created_at (markup_log st) (markup_log fin)"
    unfolding f detect_deleted_csv_def by (rule keeps_detect_deleted) simp
  ultimately show ?thesis by (auto simp add: initial_csv_def intro: keeps_trans)
qed

lemma distinct_csv_step:
  "distinct (map fst (markup_log st)) \<Longrightarrow> distinct (map fst (markup_log (csv_step now st node)))"
  by (auto simp add: csv_step_log distinct_update distinct_map_entry split: save_outcome.splits)

lemma distinct_csv_steps:
  "distinct (map fst (markup_log st)) \<Longrightarrow> distinct (map fst (markup_log (csv_steps now nodes st)))"
  unfolding csv_steps_def
  by (induction nodes arbitrary: st) (simp_all add: distinct_csv_step)

lemma csv_step_untouched:
  "k \<noteq> fst (csv_name st node) \<Longrightarrow>
   map_of (markup_log (csv_step now st node)) k = map_of (markup_log st) k"
  by (auto simp add: csv_step_log update_conv' map_of_map_entry split: save_outcome.splits)

lemma csv_steps_current_mono:
  "current_filenames st \<subseteq> current_filenames (csv_steps now nodes st)"
  unfolding csv_steps_def
proof (induction nodes arbitrary: st)
  case Nil
  show ?case by simp
next
  case (Cons node nodes)
  from Cons [of "csv_step now st node"] show ?case
    by (auto simp add: csv_step_current)
qed

lemma csv_steps_untouched:
  "k \<notin> current_filenames (csv_steps now nodes st) \<Longrightarrow>
   map_of (markup_log (csv_steps now nodes st)) k = map_of (markup_log st) k"
proof (induction nodes arbitrary: st)
  case Nil
  show ?case by (simp add: csv_steps_def)
next
  case (Cons node nodes)
  have e: "csv_steps now (node # nodes) st = csv_steps now nodes (csv_step now st node)"
    by (simp add: csv_steps_def)
  from Cons.prems e have k: "k \<notin> current_filenames (csv_steps now nodes (csv_step now st node))"
    by simp
  with csv_steps_current_mono [of "csv_step now st node" now nodes]
  have "k \<notin> current_filenames (csv_step now st node)" by auto
  then have "k \<noteq> fst (csv_name st node)" by (auto simp add: csv_step_current)
  then have "map_of (markup_log (csv_step now st node)) k = map_of (markup_log st) k"
    by (rule csv_step_untouched)
  with Cons.IH [OF k] e show ?case by simp
qed

lemma csv_steps_keys:
  "fst ` set (markup_log st) \<subseteq> fst ` set (markup_log (csv_steps now nodes st))
   \<and> fst ` set (markup_log (csv_steps now nodes st))
        \<subseteq> fst ` set (markup_log st) \<union> current_filenames (csv_steps now nodes st)"
proof (induction nodes arbitrary: st)
  case Nil
  show ?case by (simp add: csv_steps_def)
next
  case (Cons node nodes)
  define st1 where "st1 = csv_step now st node"
  define K0 where "K0 = fst ` set (markup_log st)"
  define K1 where "K1 = fst ` set (markup_log st1)"
  define K2 where "K2 = fst ` set (markup_log (csv_steps now nodes st1))"
  define C2 where "C2 = current_filenames (csv_steps now nodes st1)"
  have e: "csv_steps now (node # nodes) st = csv_steps now nodes st1"
    by (simp add: csv_steps_def st1_def)
  from csv_step_keys [of now st node]
  have a: "K0 \<subseteq> K1" and b: "K1 \<subseteq> insert (fst (csv_name st node)) K0"
    by (simp_all add: K0_def K1_def st1_def)
  have c: "fst (csv_name st node) \<in> C2"
    using csv_steps_current_mono [of st1 now nodes]
    by (auto simp add: csv_step_current st1_def C2_def)
  from Cons.IH [of st1] have d: "K1 \<subseteq> K2" and f: "K2 \<subseteq> K1 \<union> C2"
    by (simp_all add: K1_def K2_def C2_def)
  from a b c d f have "K0 \<subseteq> K2 \<and> K2 \<subseteq> K0 \<union> C2" by blast
  then show ?case by (simp only: e K0_def K2_def C2_def)
qed

lemma csv_steps_max_mono: "max_number st \<le> max_number (csv_steps now nodes st)"
  unfolding csv_steps_def
proof (induction nodes arbitrary: st)
  case Nil
  show ?case by simp
next
  case (Cons node nodes)
  from Cons [of "csv_step now st node"] csv_name_mono [of st node]
  show ?case by (simp add: csv_step_max)
qed

subsection \<open>One step of the XLSX loop\<close>

lemma existing_file_xlsx_Some:
  "existing_file_xlsx log name = Some f \<Longrightarrow> f \<in> fst ` set log \<and> replace ''.json'' '''' f = name"
  unfolding existing_file_xlsx_def by (induction log) (auto split: if_splits)

lemma save_existing_xlsx_effect:
  assumes "save_existing_xlsx now f node st = Inr st'"
  shows "markup_log st' = markup_log st \<and> max_number st' = max_number st
         \<and> current_filenames st' = insert f (current_filenames st)
         \<and> markup_type st' = markup_type st"
  using assms by (auto simp add: save_existing_xlsx_def Let_def split: save_outcome.splits)

lemma save_new_xlsx_effect:
  assumes "save_new_xlsx L now node st = Inr st'"
  shows "\<exists>t. markup_type_of (node_class node) (markup_type st) = Some t
           \<and> writable L (max_number st + 1)
           \<and> max_number st' = max_number st + 1
           \<and> current_filenames st'
               = insert (t @ ''_'' @ str_nat (max_number st + 1) @ ''.json'') (current_filenames st)
           \<and> markup_log st' =
               (if node_save node = SaveRaisedOSError then markup_log st
                else AList.update (t @ ''_'' @ str_nat (max_number st + 1) @ ''.json'')
                       (new_entry_xlsx now (strip (node_name node))) (markup_log st))"
  using assms
  by (auto simp add: save_new_xlsx_def numbered_name_cases Let_def
        split: option.splits save_outcome.splits if_splits)

lemma save_markup_xlsx_hit:
  "hit_xlsx st node \<Longrightarrow>
   \<exists>f. existing_file_xlsx (markup_log st) (strip (node_name node)) = Some f \<and> f \<noteq> []
       \<and> f \<in> fst ` set (markup_log st)
       \<and> save_markup_xlsx L now node st = save_existing_xlsx now f node st"
  using existing_file_xlsx_Some [of "markup_log st" "strip (node_name node)"]
  by (auto simp add: hit_xlsx_def save_markup_xlsx_def split: option.splits)

lemma save_markup_xlsx_miss:
  "\<not> hit_xlsx st node \<Longrightarrow> save_markup_xlsx L now node st = save_new_xlsx L now node st"
  by (auto simp add: hit_xlsx_def save_markup_xlsx_def split: option.splits)

text \<open>What one successful step of the XLSX loop does to the shared part of the state.\<close>

lemma save_markup_xlsx_effect:
  assumes "save_markup_xlsx L now node st = Inr st'"
  shows "\<exists>safe_name. current_filenames st' = insert safe_name (current_filenames st)
           \<and> max_number st \<le> max_number st'
           \<and> (safe_name \<in> fst ` set (markup_log st) \<and> max_number st' = max_number st
                  \<and> markup_log st' = markup_log st \<and> hit_xlsx st node
               \<or> (\<exists>t. safe_name = t @ ''_'' @ str_nat (max_number st + 1) @ ''.json''
                    \<and> writable L (max_number st + 1))
                  \<and> max_number st' = max_number st + 1 \<and> \<not> hit_xlsx st node
                  \<and> (markup_log st' = markup_log st
                      \<or> markup_log st' = AList.update safe_name
                            (new_entry_xlsx now (strip (node_name node))) (markup_log st)))"
proof (cases "hit_xlsx st node")
  case True
  from save_markup_xlsx_hit [OF True, of L now] obtain f where
    f: "f \<in> fst ` set (markup_log st)" and
    s: "save_markup_xlsx L now node st = save_existing_xlsx now f node st"
    by blast
  from assms s have "save_existing_xlsx now f node st = Inr st'" by simp
  from save_existing_xlsx_effect [OF this] f True show ?thesis by auto
next
  case False
  with assms have "save_new_xlsx L now node st = Inr st'" by (simp add: save_markup_xlsx_miss)
  from save_new_xlsx_effect [OF this] obtain t where
    w: "writable L (max_number st + 1)" and
    t: "max_number st' = max_number st + 1"
       "current_filenames st'
               = insert (t @ ''_'' @ str_nat (max_number st + 1) @ ''.json'') (current_filenames st)"
       "markup_log st' =
               (if node_save node = SaveRaisedOSError then markup_log st
                else AList.update (t @ ''_'' @ str_nat (max_number st + 1) @ ''.json'')
                       (new_entry_xlsx now (strip (node_name node))) (markup_log st))"
    by blast
  show ?thesis
  proof (intro exI [where x = "t @ ''_'' @ str_nat (max_number st + 1) @ ''.json''"] conjI)
    show "current_filenames st'
            = insert (t @ ''_'' @ str_nat (max_number st + 1) @ ''.json'') (current_filenames st)"
      by (rule t(2))
    show "max_number st \<le> max_number st'" using t(1) by simp
    show "t @ ''_'' @ str_nat (max_number st + 1) @ ''.json'' \<in> fst ` set (markup_log st)
            \<and> max_number st' = max_number st \<and> markup_log st' = markup_log st \<and> hit_xlsx st node
          \<or> (\<exists>ta. t @ ''_'' @ str_nat (max_number st + 1) @ ''.json''
                     = ta @ ''_'' @ str_nat (max_number st + 1) @ ''.json''
                   \<and> writable L (max_number st + 1))
             \<and> max_number st' = max_number st + 1 \<and> \<not> hit_xlsx st node
             \<and> (markup_log st' = markup_log st
                \<or> markup_log st' = AList.update (t @ ''_'' @ str_nat (max_number st + 1) @ ''.json'')
                      (new_entry_xlsx now (strip (node_name node))) (markup_log st))"
      using t(1,3) False w by auto
  qed
qed

lemma numbered_step_xlsx:
  assumes "save_markup_xlsx L now node st = Inr st'" "numbered L st"
  shows "numbered L st'"
proof -
  from save_markup_xlsx_effect [OF assms(1)] obtain safe_name where
    c: "current_filenames st' = insert safe_name (current_filenames st)" and
    m: "max_number st \<le> max_number st'" and
    d: "safe_name \<in> fst ` set (markup_log st) \<and> max_number st' = max_number st
                  \<and> markup_log st' = markup_log st \<and> hit_xlsx st node
        \<or> (\<exists>t. safe_name = t @ ''_'' @ str_nat (max_number st + 1) @ ''.json''
                    \<and> writable L (max_number st + 1))
                  \<and> max_number st' = max_number st + 1 \<and> \<not> hit_xlsx st node
                  \<and> (markup_log st' = markup_log st
                      \<or> markup_log st' = AList.update safe_name
                            (new_entry_xlsx now (strip (node_name node))) (markup_log st))"
    by blast
  have k: "fst ` set (markup_log st') \<subseteq> insert safe_name (fst ` set (markup_log st))"
  proof -
    from d consider (same) "markup_log st' = markup_log st"
      | (upd) "markup_log st' = AList.update safe_name
                  (new_entry_xlsx now (strip (node_name node))) (markup_log st)"
      by blast
    then show ?thesis
    proof cases
      case same
      then show ?thesis by auto
    next
      case upd
      then show ?thesis by (simp only: dom_update) simp
    qed
  qed
  have s: "\<And>n. number_part L safe_name = Some n \<Longrightarrow> n \<le> int (max_number st')"
  proof -
    fix n assume n: "number_part L safe_name = Some n"
    from d show "n \<le> int (max_number st')"
    proof
      assume "safe_name \<in> fst ` set (markup_log st) \<and> max_number st' = max_number st
                  \<and> markup_log st' = markup_log st \<and> hit_xlsx st node"
      with assms(2) n show ?thesis unfolding numbered_def by auto
    next
      assume a: "(\<exists>t. safe_name = t @ ''_'' @ str_nat (max_number st + 1) @ ''.json''
                    \<and> writable L (max_number st + 1))
                  \<and> max_number st' = max_number st + 1 \<and> \<not> hit_xlsx st node
                  \<and> (markup_log st' = markup_log st
                      \<or> markup_log st' = AList.update safe_name
                            (new_entry_xlsx now (strip (node_name node))) (markup_log st))"
      then obtain t where "safe_name = t @ ''_'' @ str_nat (max_number st + 1) @ ''.json''"
      and w: "writable L (max_number st + 1)" by blast
      with n number_part_generated [OF w, of t] a show ?thesis by simp
    qed
  qed
  show ?thesis
    unfolding numbered_def
  proof (intro ballI allI impI)
    fix f n
    assume f: "f \<in> set (map fst (markup_log st')) \<union> current_filenames st'"
      and n: "number_part L f = Some n"
    from f k c have "f = safe_name \<or> f \<in> set (map fst (markup_log st)) \<union> current_filenames st"
      by auto
    then show "n \<le> int (max_number st')"
    proof
      assume "f = safe_name"
      with n s show ?thesis by simp
    next
      assume "f \<in> set (map fst (markup_log st)) \<union> current_filenames st"
      with assms(2) n have "n \<le> int (max_number st)" unfolding numbered_def by blast
      with m show ?thesis by simp
    qed
  qed
qed

lemma keeps_save_markup_xlsx:
  assumes "save_markup_xlsx L now node st = Inr st'" "numbered L st"
  shows "keeps field (markup_log st) (markup_log st')"
proof -
  from save_markup_xlsx_effect [OF assms(1)] obtain safe_name where
    d: "markup_log st' = markup_log st
        \<or> (\<exists>t. safe_name = t @ ''_'' @ str_nat (max_number st + 1) @ ''.json''
                    \<and> writable L (max_number st + 1))
           \<and> markup_log st' = AList.update safe_name
                            (new_entry_xlsx now (strip (node_name node))) (markup_log st)"
    by blast
  then show ?thesis
  proof
    assume "markup_log st' = markup_log st"
    then show ?thesis by (simp add: keeps_refl)
  next
    assume a: "(\<exists>t. safe_name = t @ ''_'' @ str_nat (max_number st + 1) @ ''.json''
                    \<and> writable L (max_number st + 1))
           \<and> markup_log st' = AList.update safe_name
                            (new_entry_xlsx now (strip (node_name node))) (markup_log st)"
    then obtain t where "safe_name = t @ ''_'' @ str_nat (max_number st + 1) @ ''.json''"
      and w: "writable L (max_number st + 1)" by blast
    with fresh_name_new [OF assms(2) w, of t] have "safe_name \<notin> fst ` set (markup_log st)" by simp
    with a show ?thesis by (simp add: keeps_update_new)
  qed
qed

lemma save_all_xlsx_Cons:
  "save_all_xlsx L now (node # nodes) st = Inr st'' \<Longrightarrow>
   \<exists>st'. save_markup_xlsx L now node st = Inr st' \<and> save_all_xlsx L now nodes st' = Inr st''"
  by (cases "save_markup_xlsx L now node st") auto

lemma numbered_save_all_xlsx:
  "save_all_xlsx L now nodes st = Inr st' \<Longrightarrow> numbered L st \<Longrightarrow> numbered L st'"
proof (induction nodes arbitrary: st)
  case Nil
  then show ?case by simp
next
  case (Cons node nodes)
  from save_all_xlsx_Cons [OF Cons.prems(1)] obtain st1 where
    a: "save_markup_xlsx L now node st = Inr st1" and b: "save_all_xlsx L now nodes st1 = Inr st'"
    by blast
  from numbered_step_xlsx [OF a Cons.prems(2)] Cons.IH [OF b] show ?case by simp
qed

lemma keeps_save_all_xlsx:
  "save_all_xlsx L now nodes st = Inr st' \<Longrightarrow> numbered L st \<Longrightarrow>
   keeps field (markup_log st) (markup_log st')"
proof (induction nodes arbitrary: st)
  case Nil
  then show ?case by (simp add: keeps_refl)
next
  case (Cons node nodes)
  from save_all_xlsx_Cons [OF Cons.prems(1)] obtain st1 where
    a: "save_markup_xlsx L now node st = Inr st1" and b: "save_all_xlsx L now nodes st1 = Inr st'"
    by blast
  from keeps_save_markup_xlsx [OF a Cons.prems(2)] Cons.IH [OF b numbered_step_xlsx [OF a Cons.prems(2)]]
  show ?case by (rule keeps_trans)
qed

lemma numbered_initial_xlsx: "numbered L (initial_xlsx L log files)"
  using highest_number_bound by (auto simp add: numbered_def initial_xlsx_def)

lemma xlsx_created_at_kept:
  assumes "reconcile_xlsx L now locked nodes log files = Inr fin"
  shows "keeps created_at_x log (markup_log fin)"
proof -
  from assms obtain st where
    s: "save_all_xlsx L now nodes (initial_xlsx L log files) = Inr st" and
    f: "fin = detect_deleted_xlsx now locked st"
    by (auto simp add: reconcile_xlsx_def split: sum.splits)
  have "keeps created_at_x (markup_log (initial_xlsx L log files)) (markup_log st)"
    using s numbered_initial_xlsx by (rule keeps_save_all_xlsx)
  moreover have "keeps created_at_x (markup_log st) (markup_log fin)"
    unfolding f detect_deleted_xlsx_def by (rule keeps_detect_deleted) simp
  ultimately show ?thesis by (auto simp add: initial_xlsx_def intro: keeps_trans)
qed

lemma save_markup_xlsx_untouched:
  assumes "save_markup_xlsx L now node st = Inr st'" "k \<notin> current_filenames st'"
  shows "map_of (markup_log st') k = map_of (markup_log st) k"
proof -
  from save_markup_xlsx_effect [OF assms(1)] obtain safe_name where
    c: "current_filenames st' = insert safe_name (current_filenames st)" and
    d: "markup_log st' = markup_log st
        \<or> markup_log st' = AList.update safe_name
                            (new_entry_xlsx now (strip (node_name node))) (markup_log st)"
    by blast
  from c assms(2) have "k \<noteq> safe_name" by auto
  with d show ?thesis by (auto simp add: update_conv')
qed

lemma save_markup_xlsx_keys:
  assumes "save_markup_xlsx L now node st = Inr st'"
  shows "fst ` set (markup_log st) \<subseteq> fst ` set (markup_log st')
         \<and> fst ` set (markup_log st') \<subseteq> fst ` set (markup_log st) \<union> current_filenames st'
         \<and> current_filenames st \<subseteq> current_filenames st'
         \<and> max_number st \<le> max_number st'"
proof -
  from save_markup_xlsx_effect [OF assms(1)] obtain safe_name where
    c: "current_filenames st' = insert safe_name (current_filenames st)" and
    m: "max_number st \<le> max_number st'" and
    d: "markup_log st' = markup_log st
        \<or> markup_log st' = AList.update safe_name
                            (new_entry_xlsx now (strip (node_name node))) (markup_log st)"
    by blast
  have "fst ` set (markup_log st') = fst ` set (markup_log st)
               \<or> fst ` set (markup_log st') = {safe_name} \<union> fst ` set (markup_log st)"
  proof -
    from d consider (same) "markup_log st' = markup_log st"
      | (upd) "markup_log st' = AList.update safe_name
                  (new_entry_xlsx now (strip (node_name node))) (markup_log st)"
      by blast
    then show ?thesis
    proof cases
      case same
      then show ?thesis by simp
    next
      case upd
      then show ?thesis by (simp only: dom_update) simp
    qed
  qed
  with c m show ?thesis by auto
qed

lemma distinct_save_markup_xlsx:
  assumes "save_markup_xlsx L now node st = Inr st'" "distinct (map fst (markup_log st))"
  shows "distinct (map fst (markup_log st'))"
proof -
  from save_markup_xlsx_effect [OF assms(1)] obtain safe_name where
    d: "markup_log st' = markup_log st
        \<or> markup_log st' = AList.update safe_name
                            (new_entry_xlsx now (strip (node_name node))) (markup_log st)"
    by blast
  with assms(2) show ?thesis by (auto simp add: distinct_update)
qed

lemma save_all_xlsx_keys:
  "save_all_xlsx L now nodes st = Inr st' \<Longrightarrow>
   fst ` set (markup_log st) \<subseteq> fst ` set (markup_log st')
   \<and> fst ` set (markup_log st') \<subseteq> fst ` set (markup_log st) \<union> current_filenames st'
   \<and> current_filenames st \<subseteq> current_filenames st'
   \<and> max_number st \<le> max_number st'"
proof (induction nodes arbitrary: st)
  case Nil
  then show ?case by simp
next
  case (Cons node nodes)
  from save_all_xlsx_Cons [OF Cons.prems(1)] obtain st1 where
    a: "save_markup_xlsx L now node st = Inr st1" and b: "save_all_xlsx L now nodes st1 = Inr st'"
    by blast
  define K0 where "K0 = fst ` set (markup_log st)"
  define K1 where "K1 = fst ` set (markup_log st1)"
  define K2 where "K2 = fst ` set (markup_log st')"
  from save_markup_xlsx_keys [OF a] have
    p: "K0 \<subseteq> K1" "K1 \<subseteq> K0 \<union> current_filenames st1"
       "current_filenames st \<subseteq> current_filenames st1" "max_number st \<le> max_number st1"
    by (simp_all add: K0_def K1_def)
  from Cons.IH [OF b] have
    q: "K1 \<subseteq> K2" "K2 \<subseteq> K1 \<union> current_filenames st'"
       "current_filenames st1 \<subseteq> current_filenames st'" "max_number st1 \<le> max_number st'"
    by (simp_all add: K1_def K2_def)
  from p q have "K0 \<subseteq> K2 \<and> K2 \<subseteq> K0 \<union> current_filenames st'
        \<and> current_filenames st \<subseteq> current_filenames st'" by blast
  moreover from p(4) q(4) have "max_number st \<le> max_number st'" by simp
  ultimately show ?case by (simp only: K0_def K2_def)
qed

lemma save_all_xlsx_untouched:
  "save_all_xlsx L now nodes st = Inr st' \<Longrightarrow> k \<notin> current_filenames st' \<Longrightarrow>
   map_of (markup_log st') k = map_of (markup_log st) k"
proof (induction nodes arbitrary: st)
  case Nil
  then show ?case by simp
next
  case (Cons node nodes)
  from save_all_xlsx_Cons [OF Cons.prems(1)] obtain st1 where
    a: "save_markup_xlsx L now node st = Inr st1" and b: "save_all_xlsx L now nodes st1 = Inr st'"
    by blast
  from save_all_xlsx_keys [OF b] Cons.prems(2) have "k \<notin> current_filenames st1" by auto
  from save_markup_xlsx_untouched [OF a this] Cons.IH [OF b Cons.prems(2)] show ?case by simp
qed

lemma distinct_save_all_xlsx:
  "save_all_xlsx L now nodes st = Inr st' \<Longrightarrow> distinct (map fst (markup_log st)) \<Longrightarrow>
   distinct (map fst (markup_log st'))"
proof (induction nodes arbitrary: st)
  case Nil
  then show ?case by simp
next
  case (Cons node nodes)
  from save_all_xlsx_Cons [OF Cons.prems(1)] obtain st1 where
    a: "save_markup_xlsx L now node st = Inr st1" and b: "save_all_xlsx L now nodes st1 = Inr st'"
    by blast
  from distinct_save_markup_xlsx [OF a Cons.prems(2)] Cons.IH [OF b] show ?case by simp
qed

subsection \<open>Deleted markups\<close>

lemma reconcile_xlsx_Inr:
  "reconcile_xlsx L now locked nodes log files = Inr fin \<longleftrightarrow>
     (\<exists>st. after_saves_xlsx L now nodes log files = Inr st \<and> fin = detect_deleted_xlsx now locked st)"
  by (auto simp add: reconcile_xlsx_def after_saves_xlsx_def split: sum.splits)

text \<open>The deletion phase, for a state whose log has distinct keys.\<close>

lemma detect_deleted_summary:
  assumes "distinct (map fst (markup_log st))"
  shows "(\<forall>k \<in> fst ` set (markup_log st) - current_filenames st.
            if k \<in> folder_files st \<and> k \<in> locked
            then k \<in> folder_files (detect_deleted unset stamp locked st)
                 \<and> map_of (markup_log (detect_deleted unset stamp locked st)) k
                     = map_of (markup_log st) k
            else k \<notin> folder_files (detect_deleted unset stamp locked st)
                 \<and> map_of (markup_log (detect_deleted unset stamp locked st)) k
                     = map_option (\<lambda>e. if unset e then stamp e else e) (map_of (markup_log st) k))
         \<and> (\<forall>k. k \<in> current_filenames st \<longrightarrow>
              map_of (markup_log (detect_deleted unset stamp locked st)) k = map_of (markup_log st) k
              \<and> (k \<in> folder_files (detect_deleted unset stamp locked st) \<longleftrightarrow> k \<in> folder_files st))"
  by (auto simp add: detect_deleted_log [OF assms] detect_deleted_files [OF assms])

lemma deleted_outcome_detect:
  assumes "distinct (map fst (markup_log st))"
    and "fst ` set log \<subseteq> fst ` set (markup_log st)"
    and "fst ` set (markup_log st) \<subseteq> fst ` set log \<union> current_filenames st"
    and "\<And>k. k \<notin> current_filenames st \<Longrightarrow> map_of (markup_log st) k = map_of log k"
  shows "deleted_outcome unset stamp locked log st (detect_deleted unset stamp locked st)"
proof -
  from assms(2,3)
  have e: "fst ` set (markup_log st) - current_filenames st = fst ` set log - current_filenames st"
    by blast
  from detect_deleted_summary [OF assms(1), of locked unset stamp]
  show ?thesis
    unfolding deleted_outcome_def set_deleted_files e
    using assms(4) by (auto simp del: map_option_eq_Some)
qed

lemma csv_deleted:
  assumes "distinct (map fst log)" "after_saves_csv L now nodes log files = Inr st"
  shows "deleted_outcome (\<lambda>e. deleted_at e = '''') (\<lambda>e. e\<lparr>deleted_at := now\<rparr>) locked log
           st (detect_deleted_csv now locked st)"
  unfolding detect_deleted_csv_def
proof (rule deleted_outcome_detect)
  note e = after_saves_csv_steps [OF assms(2)]
  show "distinct (map fst (markup_log st))"
    unfolding e by (rule distinct_csv_steps) (simp add: initial_csv_def assms(1))
  show "fst ` set log \<subseteq> fst ` set (markup_log st)"
    unfolding e using csv_steps_keys [of "initial_csv L log files" now nodes]
    by (simp add: initial_csv_def)
  show "fst ` set (markup_log st) \<subseteq> fst ` set log \<union> current_filenames st"
    unfolding e using csv_steps_keys [of "initial_csv L log files" now nodes]
    by (simp add: initial_csv_def)
  show "\<And>k. k \<notin> current_filenames st \<Longrightarrow> map_of (markup_log st) k = map_of log k"
    unfolding e using csv_steps_untouched [of _ now nodes "initial_csv L log files"]
    by (simp add: initial_csv_def)
qed

lemma xlsx_deleted:
  assumes "distinct (map fst log)" "after_saves_xlsx L now nodes log files = Inr st"
  shows "deleted_outcome (\<lambda>e. deleted_at_x e = None \<or> deleted_at_x e = Some '''')
           (\<lambda>e. e\<lparr>deleted_at_x := Some now\<rparr>) locked log st (detect_deleted_xlsx now locked st)"
  unfolding detect_deleted_xlsx_def
proof (rule deleted_outcome_detect)
  from assms(2) have s: "save_all_xlsx L now nodes (initial_xlsx L log files) = Inr st"
    by (simp add: after_saves_xlsx_def)
  show "distinct (map fst (markup_log st))"
    using s by (rule distinct_save_all_xlsx) (simp add: initial_xlsx_def assms(1))
  show "fst ` set log \<subseteq> fst ` set (markup_log st)"
    using save_all_xlsx_keys [OF s] by (simp add: initial_xlsx_def)
  show "fst ` set (markup_log st) \<subseteq> fst ` set log \<union> current_filenames st"
    using save_all_xlsx_keys [OF s] by (simp add: initial_xlsx_def)
  show "\<And>k. k \<notin> current_filenames st \<Longrightarrow> map_of (markup_log st) k = map_of log k"
    using save_all_xlsx_untouched [OF s] by (simp add: initial_xlsx_def)
qed

lemma reconcile_csv_Inl:
  "after_saves_csv L now nodes log files = Inl e \<Longrightarrow>
   reconcile_csv L now locked nodes log files = Inl e"
  by (simp add: reconcile_csv_def after_saves_csv_def)

lemma reconcile_xlsx_Inl:
  "after_saves_xlsx L now nodes log files = Inl e \<Longrightarrow>
   reconcile_xlsx L now locked nodes log files = Inl e"
  by (simp add: reconcile_xlsx_def after_saves_xlsx_def)

text \<open>
  Claim C1 says that exactly the log entries in the difference between the logged file
  names and the file names of the nodes in the scene are treated as deleted: their file is
  removed if it exists and their \<open>deleted_at\<close> is set to the exit time stamp if and only if
  it was empty. The removal and the time stamp share one \<open>try\<close>: when \<open>os.remove\<close>
  raises, the file stays and \<open>deleted_at\<close> stays empty. And the deletion loop is reached
  only when the loop over the nodes was not ended by an exception. As amended, for the CSV
  and the XLSX script (a log has distinct keys). When the loop over the nodes ends without
  an exception: the files the handler goes through are the logged file names that are not
  in \<open>current_filenames\<close>; for each of them, if its removal raises, the file and the entry
  stay as they are, and otherwise the file is gone and the entry is as loaded but for
  \<open>deleted_at\<close>, which is the exit time stamp if it was unset and unchanged if not; the
  entries and files of the names in \<open>current_filenames\<close> are not touched by this phase.
  When the loop over the nodes is ended by an exception, the handler ends with it: no file
  is removed and no entry is stamped.
\<close>

theorem deleted_markups_reconciled:
  "(\<forall>st. distinct (map fst log) \<and> after_saves_csv L now nodes log files = Inr st \<longrightarrow>
        reconcile_csv L now locked nodes log files = Inr (detect_deleted_csv now locked st)
        \<and> deleted_outcome (\<lambda>e. deleted_at e = '''') (\<lambda>e. e\<lparr>deleted_at := now\<rparr>) locked log
            st (detect_deleted_csv now locked st))
   \<and> (\<forall>st. distinct (map fst xlog) \<and> after_saves_xlsx L now nodes xlog files = Inr st \<longrightarrow>
        reconcile_xlsx L now locked nodes xlog files = Inr (detect_deleted_xlsx now locked st)
        \<and> deleted_outcome (\<lambda>e. deleted_at_x e = None \<or> deleted_at_x e = Some '''')
            (\<lambda>e. e\<lparr>deleted_at_x := Some now\<rparr>) locked xlog st (detect_deleted_xlsx now locked st))
   \<and> (\<forall>e. after_saves_csv L now nodes log files = Inl e \<longrightarrow>
        reconcile_csv L now locked nodes log files = Inl e)
   \<and> (\<forall>e. after_saves_xlsx L now nodes xlog files = Inl e \<longrightarrow>
        reconcile_xlsx L now locked nodes xlog files = Inl e)"
proof (intro conjI allI impI)
  fix st
  assume a: "distinct (map fst log) \<and> after_saves_csv L now nodes log files = Inr st"
  then show "reconcile_csv L now locked nodes log files = Inr (detect_deleted_csv now locked st)"
    by (simp add: reconcile_csv_Inr)
  from a csv_deleted [of log L now nodes files st locked]
  show "deleted_outcome (\<lambda>e. deleted_at e = '''') (\<lambda>e. e\<lparr>deleted_at := now\<rparr>) locked log
            st (detect_deleted_csv now locked st)"
    by simp
next
  fix st
  assume a: "distinct (map fst xlog) \<and> after_saves_xlsx L now nodes xlog files = Inr st"
  then show "reconcile_xlsx L now locked nodes xlog files = Inr (detect_deleted_xlsx now locked st)"
    by (simp add: reconcile_xlsx_Inr)
  from a xlsx_deleted [of xlog L now nodes files st locked]
  show "deleted_outcome (\<lambda>e. deleted_at_x e = None \<or> deleted_at_x e = Some '''')
            (\<lambda>e. e\<lparr>deleted_at_x := Some now\<rparr>) locked xlog st (detect_deleted_xlsx now locked st)"
    by simp
next
  fix e
  assume "after_saves_csv L now nodes log files = Inl e"
  then show "reconcile_csv L now locked nodes log files = Inl e" by (rule reconcile_csv_Inl)
next
  fix e
  assume "after_saves_xlsx L now nodes xlog files = Inl e"
  then show "reconcile_xlsx L now locked nodes xlog files = Inl e" by (rule reconcile_xlsx_Inl)
qed

theorem deleted_markups_reconciled_witness:
  "distinct (map fst ex_markups)
   \<and> after_saves_csv 4300 ''t2'' [] ex_markups {''a_1.json''} = Inr (initial_csv 4300 ex_markups {''a_1.json''})
   \<and> fst ` set ex_markups - current_filenames (initial_csv 4300 ex_markups {''a_1.json''})
       = {''a_1.json'', ''b.json''}
   \<and> reconcile_csv 4300 ''t2'' {} [] ex_markups {''a_1.json''}
       = Inr (detect_deleted_csv ''t2'' {} (initial_csv 4300 ex_markups {''a_1.json''}))
   \<and> ''a_1.json'' \<notin> folder_files (detect_deleted_csv ''t2'' {} (initial_csv 4300 ex_markups {''a_1.json''}))
   \<and> map_of (markup_log (detect_deleted_csv ''t2'' {} (initial_csv 4300 ex_markups {''a_1.json''}))) ''a_1.json''
       = Some \<lparr>created_at = ''t0'', content = ''c'', deleted_at = ''t2''\<rparr>
   \<and> map_of (markup_log (detect_deleted_csv ''t2'' {} (initial_csv 4300 ex_markups {''a_1.json''}))) ''b.json''
       = Some \<lparr>created_at = ''t0'', content = ''e'', deleted_at = ''t1''\<rparr>
   \<and> distinct (map fst ex_markups_x)
   \<and> after_saves_xlsx 4300 ''t2'' [] ex_markups_x {''a_1.json''} = Inr (initial_xlsx 4300 ex_markups_x {''a_1.json''})
   \<and> map_of (markup_log (detect_deleted_xlsx ''t2'' {} (initial_xlsx 4300 ex_markups_x {''a_1.json''}))) ''point_1.json''
       = Some ((new_entry_xlsx ''t0'' ''lesion'')\<lparr>deleted_at_x := Some ''t2''\<rparr>)"
proof -
  have d: "distinct (map fst ex_markups)" by (simp add: ex_markups_def)
  have a: "after_saves_csv 4300 ''t2'' [] ex_markups {''a_1.json''}
             = Inr (initial_csv 4300 ex_markups {''a_1.json''})"
    by (simp add: after_saves_csv_def)
  have c: "current_filenames (initial_csv 4300 ex_markups {''a_1.json''}) = {}"
          "folder_files (initial_csv 4300 ex_markups {''a_1.json''}) = {''a_1.json''}"
    by (simp_all add: initial_csv_def)
  have k: "fst ` set ex_markups = {''a_1.json'', ''b.json''}" by (simp add: ex_markups_def)
  have dx: "distinct (map fst ex_markups_x)" by (simp add: ex_markups_x_def)
  have ax: "after_saves_xlsx 4300 ''t2'' [] ex_markups_x {''a_1.json''}
              = Inr (initial_xlsx 4300 ex_markups_x {''a_1.json''})"
    by (simp add: after_saves_xlsx_def)
  have cx: "current_filenames (initial_xlsx 4300 ex_markups_x {''a_1.json''}) = {}"
           "folder_files (initial_xlsx 4300 ex_markups_x {''a_1.json''}) = {''a_1.json''}"
    by (simp_all add: initial_xlsx_def)
  have kx: "fst ` set ex_markups_x = {''point_1.json'', ''lesion.json''}"
    by (simp add: ex_markups_x_def)
  note t = deleted_markups_reconciled [where L = 4300 and log = ex_markups and now = "''t2''"
             and locked = "{}" and nodes = "[]" and files = "{''a_1.json''}" and xlog = ex_markups_x]
  from t d a have
    r: "reconcile_csv 4300 ''t2'' {} [] ex_markups {''a_1.json''}
          = Inr (detect_deleted_csv ''t2'' {} (initial_csv 4300 ex_markups {''a_1.json''}))" and
    o: "deleted_outcome (\<lambda>e. deleted_at e = '''') (\<lambda>e. e\<lparr>deleted_at := ''t2''\<rparr>) {}
          ex_markups (initial_csv 4300 ex_markups {''a_1.json''})
          (detect_deleted_csv ''t2'' {} (initial_csv 4300 ex_markups {''a_1.json''}))"
    by blast+
  from t dx ax have ox: "deleted_outcome (\<lambda>e. deleted_at_x e = None \<or> deleted_at_x e = Some '''')
            (\<lambda>e. e\<lparr>deleted_at_x := Some ''t2''\<rparr>) {} ex_markups_x (initial_xlsx 4300 ex_markups_x {''a_1.json''})
            (detect_deleted_xlsx ''t2'' {} (initial_xlsx 4300 ex_markups_x {''a_1.json''}))"
    by blast
  from o have
    "''a_1.json'' \<notin> folder_files (detect_deleted_csv ''t2'' {} (initial_csv 4300 ex_markups {''a_1.json''}))
     \<and> map_of (markup_log (detect_deleted_csv ''t2'' {} (initial_csv 4300 ex_markups {''a_1.json''}))) ''a_1.json''
       = Some \<lparr>created_at = ''t0'', content = ''c'', deleted_at = ''t2''\<rparr>
     \<and> map_of (markup_log (detect_deleted_csv ''t2'' {} (initial_csv 4300 ex_markups {''a_1.json''}))) ''b.json''
       = Some \<lparr>created_at = ''t0'', content = ''e'', deleted_at = ''t1''\<rparr>"
    unfolding deleted_outcome_def c k by (simp add: ex_markups_def)
  moreover from ox have
    "map_of (markup_log (detect_deleted_xlsx ''t2'' {} (initial_xlsx 4300 ex_markups_x {''a_1.json''}))) ''point_1.json''
       = Some ((new_entry_xlsx ''t0'' ''lesion'')\<lparr>deleted_at_x := Some ''t2''\<rparr>)"
    unfolding deleted_outcome_def cx kx by (simp add: ex_markups_x_def new_entry_xlsx_def)
  ultimately show ?thesis using d a c k r dx ax by simp
qed

theorem deleted_markups_counterexample:
  "after_saves_csv 4300 ''t2'' [] ex_markups {''a_1.json''} = Inr (initial_csv 4300 ex_markups {''a_1.json''})
   \<and> set (deleted_files (initial_csv 4300 ex_markups {''a_1.json''})) = {''a_1.json'', ''b.json''}
   \<and> map_of ex_markups ''a_1.json'' = Some \<lparr>created_at = ''t0'', content = ''c'', deleted_at = ''''\<rparr>
   \<and> reconcile_csv 4300 ''t2'' {''a_1.json''} [] ex_markups {''a_1.json''}
       = Inr (detect_deleted_csv ''t2'' {''a_1.json''} (initial_csv 4300 ex_markups {''a_1.json''}))
   \<and> ''a_1.json'' \<in> folder_files (detect_deleted_csv ''t2'' {''a_1.json''} (initial_csv 4300 ex_markups {''a_1.json''}))
   \<and> map_of (markup_log (detect_deleted_csv ''t2'' {''a_1.json''} (initial_csv 4300 ex_markups {''a_1.json''})))
        ''a_1.json''
       = Some \<lparr>created_at = ''t0'', content = ''c'', deleted_at = ''''\<rparr>"
  by (simp add: reconcile_csv_def after_saves_csv_def initial_csv_def
        detect_deleted_csv_def detect_deleted_def deleted_files_def mark_deleted_def ex_markups_def)

lemma save_all_csv_Inl:
  "save_all_csv L now nodes st = Inl e \<Longrightarrow>
   e = ValueError \<and> \<not> writable L (max_number st + length nodes)"
proof (induction nodes arbitrary: st)
  case Nil
  then show ?case by simp
next
  case (Cons node nodes)
  show ?case
  proof (cases "csv_fits L st node")
    case False
    then have "\<not> writable L (max_number st + 1)" by (simp add: csv_fits_def)
    then have "\<not> writable L (max_number st + length (node # nodes))"
      using writable_mono [of L "max_number st + length (node # nodes)" "max_number st + 1"] by auto
    moreover from False Cons.prems have "e = ValueError" by (simp add: save_markup_csv_cases)
    ultimately show ?thesis by simp
  next
    case True
    with Cons.prems have "save_all_csv L now nodes (csv_step now st node) = Inl e"
      by (simp add: save_markup_csv_cases)
    from Cons.IH [OF this] have e: "e = ValueError"
      and w: "\<not> writable L (max_number (csv_step now st node) + length nodes)" by simp_all
    have "max_number (csv_step now st node) \<le> max_number st + 1"
      by (simp add: csv_step_max csv_name_def)
    then have "max_number (csv_step now st node) + length nodes \<le> max_number st + length (node # nodes)"
      by simp
    with w have "\<not> writable L (max_number st + length (node # nodes))"
      using writable_mono by blast
    with e show ?thesis by simp
  qed
qed

lemma reconcile_csv_raises:
  assumes "reconcile_csv L now locked nodes log files = Inl e"
  shows "e = ValueError \<and> over_limit L (length (str_nat (last_number L (map fst log) + length nodes)))"
proof -
  from assms have "save_all_csv L now nodes (initial_csv L log files) = Inl e"
    by (simp add: reconcile_csv_def split: sum.splits)
  from save_all_csv_Inl [OF this] show ?thesis
    by (simp add: writable_def initial_csv_def)
qed

text \<open>
  Claim C10. \<open>onAppExit\<close> never changes the \<open>created_at\<close> field of a log entry that was
  in the persisted log: after reconciliation, whether the entry was matched by a node,
  marked deleted or left alone, it is still there and its \<open>created_at\<close> is the value that
  was loaded. For the CSV and the XLSX script when the handler is not ended by an exception
  (then the log is not rewritten at all); the CSV script is ended by an exception only when
  it comes to write a file number that is beyond the limit on digits.
\<close>

theorem created_at_never_changed:
  "(\<forall>fin k e. reconcile_csv L now locked nodes log files = Inr fin \<and> map_of log k = Some e \<longrightarrow>
      (\<exists>e'. map_of (markup_log fin) k = Some e' \<and> created_at e' = created_at e))
   \<and> (\<forall>fin k e. reconcile_xlsx L now locked nodes xlog files = Inr fin \<and> map_of xlog k = Some e \<longrightarrow>
      (\<exists>e'. map_of (markup_log fin) k = Some e' \<and> created_at_x e' = created_at_x e))
   \<and> (\<forall>e. reconcile_csv L now locked nodes log files = Inl e \<longrightarrow>
        e = ValueError
        \<and> over_limit L (length (str_nat (last_number L (map fst log) + length nodes))))"
proof (intro conjI allI impI)
  fix fin k e
  assume a: "reconcile_csv L now locked nodes log files = Inr fin \<and> map_of log k = Some e"
  then have "keeps created_at log (markup_log fin)" using csv_created_at_kept by blast
  with a show "\<exists>e'. map_of (markup_log fin) k = Some e' \<and> created_at e' = created_at e"
    unfolding keeps_def by blast
next
  fix fin k e
  assume a: "reconcile_xlsx L now locked nodes xlog files = Inr fin \<and> map_of xlog k = Some e"
  then have "keeps created_at_x xlog (markup_log fin)" using xlsx_created_at_kept by blast
  with a show "\<exists>e'. map_of (markup_log fin) k = Some e' \<and> created_at_x e' = created_at_x e"
    unfolding keeps_def by blast
next
  fix e
  assume "reconcile_csv L now locked nodes log files = Inl e"
  then show "e = ValueError" using reconcile_csv_raises by blast
next
  fix e
  assume "reconcile_csv L now locked nodes log files = Inl e"
  then show "over_limit L (length (str_nat (last_number L (map fst log) + length nodes)))"
    using reconcile_csv_raises by blast
qed

lemma ex_numbers:
  "number_part L ''a_1.json'' = Some 1" "number_part L ''b.json'' = None"
  "number_part L ''point_1.json'' = Some 1" "number_part L ''lesion.json'' = None"
  by (simp_all add: number_part_def py_int_def startswith_def is_int_space_def over_limit_def
        is_digit_def digit_val_def digits_def Let_def)

lemma ex_max: "last_number L (map fst ex_markups) = 1" "highest_number L (map fst ex_markups_x) = 1"
  by (simp_all add: last_number_def highest_number_def ex_markups_def ex_markups_x_def ex_numbers)

lemma ex_str: "str_nat (Suc (Suc 0)) = ''2''"
  by (simp add: str_nat.simps digits_def)

lemma ex_writable: "writable L (Suc (Suc 0))"
  by (simp add: writable_def over_limit_def ex_str)

lemma ex_reconcile_csv: "\<exists>fin. reconcile_csv L ''t2'' {} [ex_node] ex_markups {} = Inr fin"
proof -
  have "csv_fits L (initial_csv L ex_markups {}) ex_node"
    by (simp add: csv_fits_def initial_csv_def ex_markups_def ex_node_def
          encode_filename_def encode_replacements_eq startswith_def)
  then show ?thesis
    by (simp add: reconcile_csv_def save_markup_csv_cases)
qed

lemma ex_next_xlsx:
  "Suc (max_number (initial_xlsx L ex_markups_x files)) = Suc (Suc 0)"
  "current_filenames (initial_xlsx L ex_markups_x files) = {}"
  by (simp_all add: initial_xlsx_def ex_max)

lemma ex_reconcile_xlsx: "\<exists>fin. reconcile_xlsx L ''t2'' {} [ex_node] ex_markups_x {} = Inr fin"
proof -
  have m: "\<not> hit_xlsx (initial_xlsx L ex_markups_x {}) ex_node"
    by (simp add: hit_xlsx_def existing_file_xlsx_def initial_xlsx_def ex_markups_x_def ex_node_def
          startswith_def strip_def is_space_def)
  have "\<exists>st'. save_new_xlsx L ''t2'' ex_node (initial_xlsx L ex_markups_x {}) = Inr st'"
    by (simp add: save_new_xlsx_def markup_type_of_def Let_def numbered_name_cases
          ex_next_xlsx ex_writable ex_node_def)
  then show ?thesis
    by (auto simp add: reconcile_xlsx_def save_markup_xlsx_miss [OF m])
qed

theorem created_at_never_changed_witness:
  "map_of ex_markups ''b.json'' = Some \<lparr>created_at = ''t0'', content = ''e'', deleted_at = ''t1''\<rparr>
   \<and> (\<exists>fin e'. reconcile_csv 4300 ''t2'' {} [ex_node] ex_markups {} = Inr fin
          \<and> map_of (markup_log fin) ''b.json'' = Some e' \<and> created_at e' = ''t0'')
   \<and> map_of ex_markups_x ''point_1.json'' = Some (new_entry_xlsx ''t0'' ''lesion'')
   \<and> (\<exists>fin e'. reconcile_xlsx 4300 ''t2'' {} [ex_node] ex_markups_x {} = Inr fin
          \<and> map_of (markup_log fin) ''point_1.json'' = Some e' \<and> created_at_x e' = Some ''t0'')"
proof -
  have a: "map_of ex_markups ''b.json'' = Some \<lparr>created_at = ''t0'', content = ''e'', deleted_at = ''t1''\<rparr>"
    by (simp add: ex_markups_def)
  have b: "map_of ex_markups_x ''point_1.json'' = Some (new_entry_xlsx ''t0'' ''lesion'')"
    by (simp add: ex_markups_x_def)
  from ex_reconcile_csv obtain fc where c: "reconcile_csv 4300 ''t2'' {} [ex_node] ex_markups {} = Inr fc"
    by blast
  from ex_reconcile_xlsx obtain fin where f: "reconcile_xlsx 4300 ''t2'' {} [ex_node] ex_markups_x {} = Inr fin"
    by blast
  note t = created_at_never_changed [where L = 4300 and log = ex_markups and now = "''t2''"
             and locked = "{}" and nodes = "[ex_node]" and files = "{}" and xlog = ex_markups_x]
  from t c a have "\<exists>e'. map_of (markup_log fc) ''b.json'' = Some e' \<and> created_at e' = ''t0''"
    by fastforce
  moreover from t f b have "\<exists>e'. map_of (markup_log fin) ''point_1.json'' = Some e' \<and> created_at_x e' = Some ''t0''"
    by (fastforce simp add: new_entry_xlsx_def)
  ultimately show ?thesis using a b c f by blast
qed

text \<open>
  Claim C3 says that writing a markup log whose fields have no commas and no newlines and
  loading it again gives the same log. The writer puts the content between double quotes
  and the loader does not take them off: the content \<open>c\<close> comes back as \<open>"c"\<close>, with one
  more pair of quotes at every exit for an entry that is not saved again.
\<close>

theorem csv_reload_wraps_content:
  "write_markup_log [(''a_1.json'', \<lparr>created_at = ''t0'', content = ''c'', deleted_at = ''''\<rparr>)]
     = ''filename,created_at,content,deleted_at'' @ [CHR 0x0A]
       @ ''a_1.json,t0,'' @ [CHR 0x22] @ ''c'' @ [CHR 0x22] @ '','' @ [CHR 0x0A]
   \<and> load_markup_log (Some (write_markup_log
         [(''a_1.json'', \<lparr>created_at = ''t0'', content = ''c'', deleted_at = ''''\<rparr>)]))
     = [(''a_1.json'', \<lparr>created_at = ''t0'', content = [CHR 0x22] @ ''c'' @ [CHR 0x22], deleted_at = ''''\<rparr>)]"
  by (simp add: write_markup_log_def load_markup_log_def parse_log_line_def strip_def is_space_def
        Let_def eval_nat_numeral)

subsection \<open>New file names\<close>

lemma newly_numbered_intro:
  assumes "numbered L st" "writable L (max_number st + 1)"
    "fst ` set log \<subseteq> fst ` set (markup_log st)"
    "highest_number L (map fst log) \<le> max_number st"
  shows "newly_numbered L log st (base @ ''_'' @ str_nat (max_number st + 1) @ ''.json'') (max_number st + 1)"
proof -
  let ?name = "base @ ''_'' @ str_nat (max_number st + 1) @ ''.json''"
  have n: "number_part L ?name = Some (int (max_number st + 1))"
    using assms(2) by (rule number_part_generated)
  have f: "?name \<notin> set (map fst (markup_log st)) \<union> current_filenames st"
    using assms(1,2) by (rule fresh_name_new)
  have b: "\<forall>k \<in> fst ` set log. \<forall>m. number_part L k = Some m \<longrightarrow> m < int (max_number st + 1)"
  proof (intro ballI allI impI)
    fix k m
    assume "k \<in> fst ` set log" and m: "number_part L k = Some m"
    with assms(3) have "k \<in> set (map fst (markup_log st)) \<union> current_filenames st" by auto
    with assms(1) m have "m \<le> int (max_number st)" unfolding numbered_def by blast
    then show "m < int (max_number st + 1)" by simp
  qed
  from assms(4) have h: "highest_number L (map fst log) < max_number st + 1" by simp
  from n f b h assms(3) show ?thesis
    unfolding newly_numbered_def by (intro conjI) (auto simp del: append_assoc)
qed

lemma numbered_after_saves_csv:
  "after_saves_csv L now pre log files = Inr st \<Longrightarrow> numbered L st"
  unfolding after_saves_csv_def
  using numbered_save_all numbered_initial by blast

lemma keys_after_saves_csv:
  "after_saves_csv L now pre log files = Inr st \<Longrightarrow> fst ` set log \<subseteq> fst ` set (markup_log st)"
  using csv_steps_keys [of "initial_csv L log files" now pre] after_saves_csv_steps [of L now pre log files st]
  by (simp add: initial_csv_def)

lemma max_after_saves_csv:
  "after_saves_csv L now pre log files = Inr st \<Longrightarrow> highest_number L (map fst log) \<le> max_number st"
  using csv_steps_max_mono [of "initial_csv L log files" now pre] after_saves_csv_steps [of L now pre log files st]
  by (simp add: initial_csv_def last_number_eq)

lemma save_all_csv_max_mono:
  "save_all_csv L now nodes st = Inr st' \<Longrightarrow> max_number st \<le> max_number st'"
  using save_all_csv_steps [of L now nodes st st'] csv_steps_max_mono [of st now nodes] by simp

lemma csv_fresh_names:
  assumes "after_saves_csv L now pre log files = Inr st"
    "encode_filename (node_name node) @ ''.json'' \<notin> fst ` set (markup_log st)"
    "save_markup_csv L now st node = Inr st'"
  shows "\<exists>name n. choose_name_csv L st node = Inr (name, n)
           \<and> current_filenames st' = insert name (current_filenames st)
           \<and> newly_numbered L log st name n
           \<and> max_number st' = n
           \<and> (\<forall>post st''. save_all_csv L now post st' = Inr st'' \<longrightarrow> n \<le> max_number st'')"
proof -
  let ?name = "encode_filename (node_name node) @ ''_'' @ str_nat (max_number st + 1) @ ''.json''"
  from assms(3) have fits: "csv_fits L st node" and s: "st' = csv_step now st node"
    by (simp_all add: save_markup_csv_Inr)
  from fits assms(2) have w: "writable L (max_number st + 1)" by (simp add: csv_fits_def)
  from assms(2) have cn: "csv_name st node = (?name, max_number st + 1)"
    by (simp add: csv_name_def)
  with fits have c: "choose_name_csv L st node = Inr (?name, max_number st + 1)"
    by (simp add: choose_name_csv_cases)
  have nn: "newly_numbered L log st ?name (max_number st + 1)"
    by (rule newly_numbered_intro [OF numbered_after_saves_csv [OF assms(1)] w
          keys_after_saves_csv [OF assms(1)] max_after_saves_csv [OF assms(1)]])
  have m: "max_number st' = max_number st + 1"
    by (simp add: s csv_step_max cn)
  have cf: "current_filenames st' = insert ?name (current_filenames st)"
    by (simp add: s csv_step_current cn)
  have "\<forall>post st''. save_all_csv L now post st' = Inr st'' \<longrightarrow> max_number st + 1 \<le> max_number st''"
    using save_all_csv_max_mono m by fastforce
  with c cf nn m show ?thesis by blast
qed

lemma numbered_after_saves_xlsx:
  "after_saves_xlsx L now pre log files = Inr st \<Longrightarrow> numbered L st"
  unfolding after_saves_xlsx_def
  using numbered_save_all_xlsx numbered_initial_xlsx by blast

lemma keys_after_saves_xlsx:
  "after_saves_xlsx L now pre log files = Inr st \<Longrightarrow>
   fst ` set log \<subseteq> fst ` set (markup_log st) \<and> highest_number L (map fst log) \<le> max_number st"
  unfolding after_saves_xlsx_def
  using save_all_xlsx_keys [of L now pre "initial_xlsx L log files" st]
  by (simp add: initial_xlsx_def)

lemma xlsx_fresh_names:
  assumes "after_saves_xlsx L now pre log files = Inr st" "\<not> hit_xlsx st node"
    "save_markup_xlsx L now node st = Inr st'"
  shows "\<exists>name n. current_filenames st' = insert name (current_filenames st)
           \<and> newly_numbered L log st name n
           \<and> max_number st' = n
           \<and> (\<forall>post st''. save_all_xlsx L now post st' = Inr st'' \<longrightarrow> n \<le> max_number st'')"
proof -
  from assms(2,3) have "save_new_xlsx L now node st = Inr st'" by (simp add: save_markup_xlsx_miss)
  from save_new_xlsx_effect [OF this] obtain t where
    w: "writable L (max_number st + 1)" and
    m: "max_number st' = max_number st + 1" and
    c: "current_filenames st'
          = insert (t @ ''_'' @ str_nat (max_number st + 1) @ ''.json'') (current_filenames st)"
    by blast
  from keys_after_saves_xlsx [OF assms(1)] have
    k: "fst ` set log \<subseteq> fst ` set (markup_log st)" and
    h: "highest_number L (map fst log) \<le> max_number st"
    by simp_all
  have nn: "newly_numbered L log st (t @ ''_'' @ str_nat (max_number st + 1) @ ''.json'') (max_number st + 1)"
    by (rule newly_numbered_intro [OF numbered_after_saves_xlsx [OF assms(1)] w k h])
  have "\<forall>post st''. save_all_xlsx L now post st' = Inr st'' \<longrightarrow> max_number st + 1 \<le> max_number st''"
    using save_all_xlsx_keys m by fastforce
  with m c nn show ?thesis by blast
qed

text \<open>
  Claim C6. Every file name newly assigned during one exit has the form
  \<open><base>_<n>.json\<close> with \<open>n\<close> greater than the largest trailing number among the file
  names of the loaded log; later assignments of the same exit use greater numbers; so a new
  name is neither a logged name nor another new one. Here, in both scripts, for the state
  after any number of nodes (\<open>pre\<close>) and the next node when it has no existing file and the
  handler goes through it: its name is numbered \<open>max_number + 1\<close>, that number is what
  \<open>int\<close> reads back from the name and is above the largest number found in the loaded log
  (\<open>highest_number\<close>, the starting value of \<open>max_number\<close>) and above the number of every
  name of the loaded log, the name is not in the loaded log, not in the log as it stands
  and not among the names given to earlier nodes (\<open>current_filenames\<close>), and \<open>max_number\<close>
  is that number afterwards and never lower later, so that the next new name gets a greater
  one.
\<close>

theorem new_filenames_fresh:
  "(\<forall>st st'. after_saves_csv L now pre log files = Inr st
          \<and> encode_filename (node_name node) @ ''.json'' \<notin> fst ` set (markup_log st)
          \<and> save_markup_csv L now st node = Inr st' \<longrightarrow>
      (\<exists>name n. choose_name_csv L st node = Inr (name, n)
           \<and> current_filenames st' = insert name (current_filenames st)
           \<and> newly_numbered L log st name n
           \<and> max_number st' = n
           \<and> (\<forall>post st''. save_all_csv L now post st' = Inr st'' \<longrightarrow> n \<le> max_number st'')))
   \<and> (\<forall>st st'. after_saves_xlsx L now pre xlog files = Inr st \<and> \<not> hit_xlsx st node
          \<and> save_markup_xlsx L now node st = Inr st' \<longrightarrow>
      (\<exists>name n. current_filenames st' = insert name (current_filenames st)
           \<and> newly_numbered L xlog st name n
           \<and> max_number st' = n
           \<and> (\<forall>post st''. save_all_xlsx L now post st' = Inr st'' \<longrightarrow> n \<le> max_number st'')))"
  using csv_fresh_names [of L now pre log files _ node] xlsx_fresh_names [of L now pre xlog files _ node]
  by blast

lemma ex_encode: "encode_filename ''q r'' = ''q_U_r''"
  by (simp add: encode_filename_def encode_replacements_eq startswith_def)

lemma ex_state: "after_saves_csv L ''t2'' [] ex_markups {} = Inr (initial_csv L ex_markups {})"
  by (simp add: after_saves_csv_def)

lemma ex_fresh:
  "encode_filename (node_name ex_new_node) @ ''.json'' \<notin> fst ` set (markup_log (initial_csv L ex_markups {}))"
  by (simp add: initial_csv_def ex_new_node_def ex_encode ex_markups_def)

lemma ex_choose:
  "choose_name_csv L (initial_csv L ex_markups {}) ex_new_node = Inr (''q_U_r_2.json'', 2)"
proof -
  have m: "max_number (initial_csv L ex_markups {}) + 1 = Suc (Suc 0)"
    by (simp add: initial_csv_def ex_max)
  with ex_writable [of L] have "csv_fits L (initial_csv L ex_markups {}) ex_new_node"
    by (simp add: csv_fits_def)
  with ex_fresh [of L] m show ?thesis
    by (simp add: choose_name_csv_cases csv_name_def ex_str ex_new_node_def ex_encode)
qed

lemma ex_save_csv:
  "\<exists>st'. save_markup_csv L ''t2'' (initial_csv L ex_markups {}) ex_new_node = Inr st'
         \<and> current_filenames st' = {''q_U_r_2.json''}"
  unfolding save_markup_csv_def ex_choose
  by (simp add: save_node_csv_def initial_csv_def ex_new_node_def Let_def)

lemma ex_miss: "\<not> hit_xlsx (initial_xlsx L ex_markups_x {}) ex_new_node"
  by (simp add: hit_xlsx_def existing_file_xlsx_def initial_xlsx_def ex_markups_x_def ex_new_node_def
        startswith_def strip_def is_space_def)

lemma ex_save_xlsx:
  "\<exists>st'. save_markup_xlsx L ''t2'' ex_new_node (initial_xlsx L ex_markups_x {}) = Inr st'
         \<and> current_filenames st' = {''line_2.json''}"
  unfolding save_markup_xlsx_miss [OF ex_miss]
  by (simp add: save_new_xlsx_def markup_type_of_def Let_def numbered_name_cases
        ex_next_xlsx ex_writable ex_str ex_new_node_def)

theorem new_filenames_fresh_witness:
  "after_saves_csv 4300 ''t2'' [] ex_markups {} = Inr (initial_csv 4300 ex_markups {})
   \<and> encode_filename (node_name ex_new_node) @ ''.json''
        \<notin> fst ` set (markup_log (initial_csv 4300 ex_markups {}))
   \<and> choose_name_csv 4300 (initial_csv 4300 ex_markups {}) ex_new_node = Inr (''q_U_r_2.json'', 2)
   \<and> (\<exists>st'. save_markup_csv 4300 ''t2'' (initial_csv 4300 ex_markups {}) ex_new_node = Inr st'
          \<and> newly_numbered 4300 ex_markups (initial_csv 4300 ex_markups {}) ''q_U_r_2.json'' 2)
   \<and> after_saves_xlsx 4300 ''t2'' [] ex_markups_x {} = Inr (initial_xlsx 4300 ex_markups_x {})
   \<and> \<not> hit_xlsx (initial_xlsx 4300 ex_markups_x {}) ex_new_node
   \<and> (\<exists>st'. save_markup_xlsx 4300 ''t2'' ex_new_node (initial_xlsx 4300 ex_markups_x {}) = Inr st'
          \<and> newly_numbered 4300 ex_markups_x (initial_xlsx 4300 ex_markups_x {}) ''line_2.json'' 2)"
proof -
  note a0 = ex_state [of 4300]
  note h = ex_fresh [of 4300]
  note ch = ex_choose [of 4300]
  from ex_save_csv obtain sc where
    sc: "save_markup_csv 4300 ''t2'' (initial_csv 4300 ex_markups {}) ex_new_node = Inr sc"
    by blast
  have a: "after_saves_xlsx 4300 ''t2'' [] ex_markups_x {} = Inr (initial_xlsx 4300 ex_markups_x {})"
    by (simp add: after_saves_xlsx_def)
  from ex_save_xlsx obtain st' where
    s: "save_markup_xlsx 4300 ''t2'' ex_new_node (initial_xlsx 4300 ex_markups_x {}) = Inr st'" and
    c: "current_filenames st' = {''line_2.json''}"
    by blast
  have c0: "current_filenames (initial_xlsx 4300 ex_markups_x {}) = {}" by (simp add: initial_xlsx_def)
  note t = new_filenames_fresh [where L = 4300 and node = ex_new_node and now = "''t2''" and pre = "[]"
             and log = ex_markups and files = "{}" and xlog = ex_markups_x]
  from t a0 h sc obtain name n where
    "choose_name_csv 4300 (initial_csv 4300 ex_markups {}) ex_new_node = Inr (name, n)"
    "newly_numbered 4300 ex_markups (initial_csv 4300 ex_markups {}) name n"
    by blast
  with ch have n1: "newly_numbered 4300 ex_markups (initial_csv 4300 ex_markups {}) ''q_U_r_2.json'' 2"
    by simp
  from t a ex_miss s obtain name n where
    x: "current_filenames st' = insert name (current_filenames (initial_xlsx 4300 ex_markups_x {}))"
       "newly_numbered 4300 ex_markups_x (initial_xlsx 4300 ex_markups_x {}) name n"
    by blast
  from x(1) c c0 have "name = ''line_2.json''" by simp
  moreover from x(2) have "n = max_number (initial_xlsx 4300 ex_markups_x {}) + 1"
    by (simp add: newly_numbered_def)
  then have "n = 2" by (simp add: initial_xlsx_def ex_max)
  ultimately have n2: "newly_numbered 4300 ex_markups_x (initial_xlsx 4300 ex_markups_x {}) ''line_2.json'' 2"
    using x(2) by simp
  from sc n1 have e1: "\<exists>st'. save_markup_csv 4300 ''t2'' (initial_csv 4300 ex_markups {}) ex_new_node = Inr st'
          \<and> newly_numbered 4300 ex_markups (initial_csv 4300 ex_markups {}) ''q_U_r_2.json'' 2"
    by blast
  from s n2 have e2: "\<exists>st'. save_markup_xlsx 4300 ''t2'' ex_new_node (initial_xlsx 4300 ex_markups_x {}) = Inr st'
          \<and> newly_numbered 4300 ex_markups_x (initial_xlsx 4300 ex_markups_x {}) ''line_2.json'' 2"
    by blast
  show ?thesis
    by (intro conjI) (rule a0 h ch e1 a ex_miss e2)+
qed

subsection \<open>New and existing entries\<close>

lemma csv_node_saved:
  assumes "after_saves_csv L now pre log files = Inr st" "save_markup_csv L now st node = Inr st'"
    "node_save node = Saved dumped"
  shows "if encode_filename (node_name node) @ ''.json'' \<in> fst ` set (markup_log st)
         then choose_name_csv L st node
                = Inr (encode_filename (node_name node) @ ''.json'', max_number st)
              \<and> markup_log st'
                  = AList.map_entry (encode_filename (node_name node) @ ''.json'')
                      (\<lambda>e. e\<lparr>content := json_content dumped, deleted_at := ''''\<rparr>)
                      (markup_log st)
              \<and> map fst (markup_log st') = map fst (markup_log st)
         else (\<exists>name n. choose_name_csv L st node = Inr (name, n)
                 \<and> newly_numbered L log st name n
                 \<and> markup_log st'
                     = markup_log st
                       @ [(name, \<lparr>created_at = now, content = json_content dumped,
                                   deleted_at = ''''\<rparr>)])"
proof (cases "encode_filename (node_name node) @ ''.json'' \<in> fst ` set (markup_log st)")
  case True
  from assms(2) have fits: "csv_fits L st node" and s: "st' = csv_step now st node"
    by (simp_all add: save_markup_csv_Inr)
  from True fits s assms(3) show ?thesis
    by (simp add: choose_name_csv_cases csv_name_def csv_step_log map_entry_keys)
next
  case False
  from assms(2) have fits: "csv_fits L st node" and s: "st' = csv_step now st node"
    by (simp_all add: save_markup_csv_Inr)
  from csv_fresh_names [OF assms(1) False assms(2)] obtain name n where
    c: "choose_name_csv L st node = Inr (name, n)" and
    nn: "newly_numbered L log st name n"
    by blast
  from c fits have cn: "csv_name st node = (name, n)" by (simp add: choose_name_csv_cases)
  from nn have "name \<notin> fst ` set (markup_log st)"
    by (simp add: newly_numbered_def)
  with cn assms(3) have "markup_log st'
                     = markup_log st
                       @ [(name, \<lparr>created_at = now, content = json_content dumped,
                                   deleted_at = ''''\<rparr>)]"
    by (simp add: s csv_step_log update_absent)
  with False c nn show ?thesis by auto
qed

lemma csv_node_not_saved:
  "save_markup_csv L now st node = Inr st' \<Longrightarrow> (\<forall>dumped. node_save node \<noteq> Saved dumped) \<Longrightarrow>
   markup_log st' = markup_log st"
  by (cases "node_save node") (simp_all add: save_markup_csv_Inr csv_step_log)

lemma xlsx_node_saved:
  assumes "after_saves_xlsx L now pre log files = Inr st" "save_markup_xlsx L now node st = Inr st'"
  shows "if hit_xlsx st node
         then markup_log st' = markup_log st
              \<and> (\<exists>f. f \<in> fst ` set (markup_log st)
                     \<and> replace ''.json'' '''' f = strip (node_name node)
                     \<and> current_filenames st' = insert f (current_filenames st))
         else (\<exists>name n. current_filenames st' = insert name (current_filenames st)
                 \<and> newly_numbered L log st name n
                 \<and> markup_log st' =
                     (if node_save node = SaveRaisedOSError then markup_log st
                      else markup_log st @ [(name, new_entry_xlsx now (strip (node_name node)))]))"
proof (cases "hit_xlsx st node")
  case True
  from save_markup_xlsx_hit [OF True, of L now] obtain f where
    e: "existing_file_xlsx (markup_log st) (strip (node_name node)) = Some f" and
    f: "f \<in> fst ` set (markup_log st)" and
    s: "save_markup_xlsx L now node st = save_existing_xlsx now f node st"
    by blast
  from assms(2) s have "save_existing_xlsx now f node st = Inr st'" by simp
  from save_existing_xlsx_effect [OF this] existing_file_xlsx_Some [OF e] f True
  show ?thesis by auto
next
  case False
  with assms(2) have "save_new_xlsx L now node st = Inr st'" by (simp add: save_markup_xlsx_miss)
  from save_new_xlsx_effect [OF this] obtain t where
    w: "writable L (max_number st + 1)" and
    c: "current_filenames st'
          = insert (t @ ''_'' @ str_nat (max_number st + 1) @ ''.json'') (current_filenames st)" and
    l: "markup_log st' =
               (if node_save node = SaveRaisedOSError then markup_log st
                else AList.update (t @ ''_'' @ str_nat (max_number st + 1) @ ''.json'')
                       (new_entry_xlsx now (strip (node_name node))) (markup_log st))"
    by blast
  from keys_after_saves_xlsx [OF assms(1)] have
    k: "fst ` set log \<subseteq> fst ` set (markup_log st)" and
    h: "highest_number L (map fst log) \<le> max_number st"
    by simp_all
  have nn: "newly_numbered L log st (t @ ''_'' @ str_nat (max_number st + 1) @ ''.json'') (max_number st + 1)"
    by (rule newly_numbered_intro [OF numbered_after_saves_xlsx [OF assms(1)] w k h])
  then have "t @ ''_'' @ str_nat (max_number st + 1) @ ''.json'' \<notin> fst ` set (markup_log st)"
    by (simp add: newly_numbered_def)
  then have "AList.update (t @ ''_'' @ str_nat (max_number st + 1) @ ''.json'')
                       (new_entry_xlsx now (strip (node_name node))) (markup_log st)
             = markup_log st @ [(t @ ''_'' @ str_nat (max_number st + 1) @ ''.json'',
                                 new_entry_xlsx now (strip (node_name node)))]"
    by (rule update_absent)
  with l have "markup_log st' =
                     (if node_save node = SaveRaisedOSError then markup_log st
                      else markup_log st @ [(t @ ''_'' @ str_nat (max_number st + 1) @ ''.json'',
                                             new_entry_xlsx now (strip (node_name node)))])"
    by simp
  with False c nn show ?thesis by (auto simp del: append_assoc)
qed

lemma fold_mark_deleted_notin:
  "k \<notin> set ks \<Longrightarrow>
   map_of (markup_log (fold (mark_deleted unset stamp locked) ks st)) k = map_of (markup_log st) k"
  by (induction ks arbitrary: st) (auto simp add: mark_deleted_log)

lemma detect_deleted_current:
  "k \<in> current_filenames st \<Longrightarrow>
   map_of (markup_log (detect_deleted unset stamp locked st)) k = map_of (markup_log st) k"
  unfolding detect_deleted_def
  by (rule fold_mark_deleted_notin) (simp add: set_deleted_files)

lemma csv_step_settled:
  assumes "map_of (markup_log st) k = Some e" "deleted_at e = ''''"
  shows "\<exists>e'. map_of (markup_log (csv_step now st node)) k = Some e'
              \<and> deleted_at e' = '''' \<and> created_at e' = created_at e"
proof -
  from assms(1) have k: "k \<in> fst ` set (markup_log st)"
    by (metis map_of_eq_None_iff option.distinct(1))
  show ?thesis
  proof (cases "node_save node")
    case (Saved dumped)
    show ?thesis
    proof (cases "fst (csv_name st node) \<in> fst ` set (markup_log st)")
      case True
      with Saved assms show ?thesis
        by (cases "k = fst (csv_name st node)")
           (simp_all add: csv_step_log map_of_map_entry)
    next
      case False
      with k have "k \<noteq> fst (csv_name st node)" by blast
      with Saved False assms show ?thesis
        by (simp add: csv_step_log update_conv')
    qed
  next
    case SaveFailed
    with assms show ?thesis by (simp add: csv_step_log)
  next
    case SaveRaisedOSError
    with assms show ?thesis by (simp add: csv_step_log)
  next
    case SaveRaisedOther
    with assms show ?thesis by (simp add: csv_step_log)
  qed
qed

lemma csv_loop_settled:
  "map_of (markup_log st) k = Some e \<Longrightarrow> deleted_at e = '''' \<Longrightarrow>
   \<exists>e'. map_of (markup_log (csv_steps now nodes st)) k = Some e'
        \<and> deleted_at e' = '''' \<and> created_at e' = created_at e"
proof (induction nodes arbitrary: st e)
  case Nil
  then show ?case by (simp add: csv_steps_def)
next
  case (Cons node nodes)
  from csv_step_settled [OF Cons.prems, of now node] obtain e1 where
    a: "map_of (markup_log (csv_step now st node)) k = Some e1" and
    b: "deleted_at e1 = ''''" and c: "created_at e1 = created_at e"
    by blast
  from Cons.IH [OF a b] c show ?case by (simp add: csv_steps_def)
qed

lemma csv_node_final:
  assumes "after_saves_csv L now pre log files = Inr st" "save_markup_csv L now st node = Inr st'"
    "node_save node = Saved dumped"
    "reconcile_csv L now locked (pre @ node # post) log files = Inr fin"
    "choose_name_csv L st node = Inr (name, n)"
  shows "\<exists>e. map_of (markup_log fin) name = Some e
             \<and> deleted_at e = ''''
             \<and> (encode_filename (node_name node) @ ''.json'' \<notin> fst ` set (markup_log st)
                  \<longrightarrow> created_at e = now)"
proof -
  from assms(2) have fits: "csv_fits L st node" and s1: "st' = csv_step now st node"
    by (simp_all add: save_markup_csv_Inr)
  from assms(5) fits have cn: "csv_name st node = (name, n)" by (simp add: choose_name_csv_cases)
  have "\<exists>e1. map_of (markup_log st') name = Some e1 \<and> deleted_at e1 = ''''
           \<and> (encode_filename (node_name node) @ ''.json'' \<notin> fst ` set (markup_log st)
                 \<longrightarrow> created_at e1 = now)"
  proof (cases "encode_filename (node_name node) @ ''.json'' \<in> fst ` set (markup_log st)")
    case True
    with cn have nm: "name = encode_filename (node_name node) @ ''.json''"
      by (simp add: csv_name_def)
    from True obtain e0 where "map_of (markup_log st) name = Some e0"
      unfolding nm by (metis map_of_eq_None_iff not_Some_eq)
    with True assms(3) nm cn show ?thesis
      by (simp add: s1 csv_step_log map_of_map_entry)
  next
    case False
    from csv_node_saved [OF assms(1,2,3)] False obtain nm k where
      "choose_name_csv L st node = Inr (nm, k)"
      "markup_log st' = markup_log st @ [(nm, \<lparr>created_at = now, content = json_content dumped,
                                   deleted_at = ''''\<rparr>)]"
      "newly_numbered L log st nm k"
      by auto
    with assms(5) have "map_of (markup_log st') name
                 = Some \<lparr>created_at = now, content = json_content dumped, deleted_at = ''''\<rparr>"
      by (auto simp add: newly_numbered_def map_add_def map_of_eq_None_iff [symmetric]
            simp del: map_of_eq_None_iff)
    then show ?thesis by simp
  qed
  then obtain e1 where
    a: "map_of (markup_log st') name = Some e1" and b: "deleted_at e1 = ''''" and
    c: "encode_filename (node_name node) @ ''.json'' \<notin> fst ` set (markup_log st)
          \<longrightarrow> created_at e1 = now"
    by blast
  from assms(4) obtain st2 where
    s: "after_saves_csv L now (pre @ node # post) log files = Inr st2" and
    f: "fin = detect_deleted_csv now locked st2"
    by (auto simp add: reconcile_csv_Inr)
  from s assms(1,2) have p: "save_all_csv L now post st' = Inr st2"
    by (simp add: after_saves_csv_def save_all_csv_append)
  then have s2: "st2 = csv_steps now post st'" by (rule save_all_csv_steps)
  from csv_loop_settled [OF a b, of now post] obtain e2 where
    d: "map_of (markup_log st2) name = Some e2" "deleted_at e2 = ''''" "created_at e2 = created_at e1"
    unfolding s2 by blast
  have "name \<in> current_filenames st'" by (simp add: s1 csv_step_current cn)
  with csv_steps_current_mono [of st' now post] have "name \<in> current_filenames st2"
    by (auto simp add: s2)
  then have "map_of (markup_log fin) name = map_of (markup_log st2) name"
    unfolding f detect_deleted_csv_def by (rule detect_deleted_current)
  with d c show ?thesis by simp
qed

lemma csv_node_raises:
  assumes "save_markup_csv L now st node = Inl e"
  shows "e = ValueError
         \<and> encode_filename (node_name node) @ ''.json'' \<notin> fst ` set (markup_log st)
         \<and> over_limit L (length (str_nat (max_number st + 1)))"
  using assms
  by (auto simp add: save_markup_csv_cases csv_fits_def writable_def split: if_splits)

lemma xlsx_step_current_same:
  assumes "save_markup_xlsx L now node st = Inr st'" "numbered L st" "k \<in> current_filenames st"
  shows "map_of (markup_log st') k = map_of (markup_log st) k"
proof -
  from save_markup_xlsx_effect [OF assms(1)] obtain safe_name where
    d: "markup_log st' = markup_log st
        \<or> (\<exists>t. safe_name = t @ ''_'' @ str_nat (max_number st + 1) @ ''.json''
                    \<and> writable L (max_number st + 1))
           \<and> markup_log st' = AList.update safe_name
                            (new_entry_xlsx now (strip (node_name node))) (markup_log st)"
    by blast
  then show ?thesis
  proof
    assume "markup_log st' = markup_log st"
    then show ?thesis by simp
  next
    assume a: "(\<exists>t. safe_name = t @ ''_'' @ str_nat (max_number st + 1) @ ''.json''
                    \<and> writable L (max_number st + 1))
           \<and> markup_log st' = AList.update safe_name
                            (new_entry_xlsx now (strip (node_name node))) (markup_log st)"
    then obtain t where "safe_name = t @ ''_'' @ str_nat (max_number st + 1) @ ''.json''"
      and w: "writable L (max_number st + 1)" by blast
    with fresh_name_new [OF assms(2) w, of t] assms(3) have "k \<noteq> safe_name" by auto
    with a show ?thesis by (simp add: update_conv')
  qed
qed

lemma xlsx_loop_current_same:
  "save_all_xlsx L now nodes st = Inr st' \<Longrightarrow> numbered L st \<Longrightarrow> k \<in> current_filenames st \<Longrightarrow>
   map_of (markup_log st') k = map_of (markup_log st) k"
proof (induction nodes arbitrary: st)
  case Nil
  then show ?case by simp
next
  case (Cons node nodes)
  from save_all_xlsx_Cons [OF Cons.prems(1)] obtain st1 where
    a: "save_markup_xlsx L now node st = Inr st1" and b: "save_all_xlsx L now nodes st1 = Inr st'"
    by blast
  from save_markup_xlsx_keys [OF a] Cons.prems(3) have c: "k \<in> current_filenames st1" by auto
  from Cons.IH [OF b numbered_step_xlsx [OF a Cons.prems(2)] c]
    xlsx_step_current_same [OF a Cons.prems(2,3)]
  show ?case by simp
qed

lemma save_all_xlsx_append:
  "save_all_xlsx L now (a @ b) st =
     (case save_all_xlsx L now a st of Inl e \<Rightarrow> Inl e | Inr st' \<Rightarrow> save_all_xlsx L now b st')"
  by (induction a arbitrary: st) (auto split: sum.splits)

lemma xlsx_node_final:
  assumes "after_saves_xlsx L now pre log files = Inr st" "save_markup_xlsx L now node st = Inr st'"
    "reconcile_xlsx L now locked (pre @ node # post) log files = Inr fin"
    "k \<in> current_filenames st'"
  shows "map_of (markup_log fin) k = map_of (markup_log st') k"
proof -
  from assms(3) obtain st2 where
    s: "after_saves_xlsx L now (pre @ node # post) log files = Inr st2" and
    f: "fin = detect_deleted_xlsx now locked st2"
    by (auto simp add: reconcile_xlsx_Inr)
  from s assms(1,2) have p: "save_all_xlsx L now post st' = Inr st2"
    by (simp add: after_saves_xlsx_def save_all_xlsx_append)
  have n: "numbered L st'"
    using assms(2) numbered_after_saves_xlsx [OF assms(1)] by (rule numbered_step_xlsx)
  from save_all_xlsx_keys [OF p] assms(4) have "k \<in> current_filenames st2" by auto
  then have "map_of (markup_log fin) k = map_of (markup_log st2) k"
    unfolding f detect_deleted_xlsx_def by (rule detect_deleted_current)
  with xlsx_loop_current_same [OF p n assms(4)] show ?thesis by simp
qed

text \<open>
  Claim C2 says that every node whose name matches no logged file name gets a new entry
  with \<open>created_at\<close> the exit time stamp and an empty \<open>deleted_at\<close>, under a fresh file
  name, and that a node whose name matches has its entry reused, the content refreshed and
  \<open>deleted_at\<close> cleared. The CSV script touches the log only when the save succeeded: a
  node whose \<open>saveNode\<close> returns false gets no entry. The XLSX script leaves a matched
  entry as it is: a \<open>deleted_at\<close> that was set stays set. As amended, for the state after
  any number of nodes and the next node, when the handler goes through them without an
  uncaught exception.
  CSV script, save succeeded: if the encoded name plus \<open>.json\<close> is in the log, that name
  is used, the entry gets the new content and an empty \<open>deleted_at\<close>, and the log has the
  same keys; if not, a new entry with the exit time stamp and an empty \<open>deleted_at\<close> is
  appended under a newly numbered name; and at the end of the exit the entry of that name
  has an empty \<open>deleted_at\<close> (and, when new, the exit time stamp as \<open>created_at\<close>). Save
  not succeeded: the log is unchanged. The turn of the CSV loop for a node raises only when
  the node has no existing file and its number is beyond the limit on digits.
  XLSX script: if the name matches, the log is unchanged and the matching file name is
  used; if not, a new entry (exit time stamp, no \<open>deleted_at\<close>) is appended under a newly
  numbered name, unless \<open>saveNode\<close> raised \<open>OSError\<close>; and at the end of the exit the
  entry of every file name used so far is what it was after this node.
\<close>

theorem node_saved_new_or_existing:
  "(\<forall>st st' dumped. after_saves_csv L now pre log files = Inr st
        \<and> save_markup_csv L now st node = Inr st' \<and> node_save node = Saved dumped \<longrightarrow>
      (if encode_filename (node_name node) @ ''.json'' \<in> fst ` set (markup_log st)
       then choose_name_csv L st node
                = Inr (encode_filename (node_name node) @ ''.json'', max_number st)
            \<and> markup_log st'
                = AList.map_entry (encode_filename (node_name node) @ ''.json'')
                    (\<lambda>e. e\<lparr>content := json_content dumped, deleted_at := ''''\<rparr>)
                    (markup_log st)
            \<and> map fst (markup_log st') = map fst (markup_log st)
       else (\<exists>name n. choose_name_csv L st node = Inr (name, n)
               \<and> newly_numbered L log st name n
               \<and> markup_log st'
                   = markup_log st
                     @ [(name, \<lparr>created_at = now, content = json_content dumped,
                                 deleted_at = ''''\<rparr>)]))
      \<and> (\<forall>post locked fin name n.
            reconcile_csv L now locked (pre @ node # post) log files = Inr fin
            \<and> choose_name_csv L st node = Inr (name, n) \<longrightarrow>
            (\<exists>e. map_of (markup_log fin) name = Some e
                \<and> deleted_at e = ''''
                \<and> (encode_filename (node_name node) @ ''.json'' \<notin> fst ` set (markup_log st)
                     \<longrightarrow> created_at e = now))))
   \<and> (\<forall>st st'. save_markup_csv L now st node = Inr st'
        \<and> (\<forall>dumped. node_save node \<noteq> Saved dumped) \<longrightarrow>
        markup_log st' = markup_log st)
   \<and> (\<forall>st e. save_markup_csv L now st node = Inl e \<longrightarrow>
        e = ValueError
        \<and> encode_filename (node_name node) @ ''.json'' \<notin> fst ` set (markup_log st)
        \<and> over_limit L (length (str_nat (max_number st + 1))))
   \<and> (\<forall>st st'. after_saves_xlsx L now pre xlog files = Inr st
          \<and> save_markup_xlsx L now node st = Inr st' \<longrightarrow>
        (if hit_xlsx st node
         then markup_log st' = markup_log st
              \<and> (\<exists>f. f \<in> fst ` set (markup_log st)
                     \<and> replace ''.json'' '''' f = strip (node_name node)
                     \<and> current_filenames st' = insert f (current_filenames st))
         else (\<exists>name n. current_filenames st' = insert name (current_filenames st)
                 \<and> newly_numbered L xlog st name n
                 \<and> markup_log st' =
                     (if node_save node = SaveRaisedOSError then markup_log st
                      else markup_log st @ [(name, new_entry_xlsx now (strip (node_name node)))])))
        \<and> (\<forall>post locked fin k.
              reconcile_xlsx L now locked (pre @ node # post) xlog files = Inr fin
              \<and> k \<in> current_filenames st' \<longrightarrow>
              map_of (markup_log fin) k = map_of (markup_log st') k))"
proof (intro conjI allI impI)
  fix st st' dumped
  assume a: "after_saves_csv L now pre log files = Inr st
        \<and> save_markup_csv L now st node = Inr st' \<and> node_save node = Saved dumped"
  then have a1: "after_saves_csv L now pre log files = Inr st"
    and a2: "save_markup_csv L now st node = Inr st'"
    and a3: "node_save node = Saved dumped" by simp_all
  from csv_node_saved [OF a1 a2 a3]
  show "if encode_filename (node_name node) @ ''.json'' \<in> fst ` set (markup_log st)
       then choose_name_csv L st node
                = Inr (encode_filename (node_name node) @ ''.json'', max_number st)
            \<and> markup_log st'
                = AList.map_entry (encode_filename (node_name node) @ ''.json'')
                    (\<lambda>e. e\<lparr>content := json_content dumped, deleted_at := ''''\<rparr>)
                    (markup_log st)
            \<and> map fst (markup_log st') = map fst (markup_log st)
       else (\<exists>name n. choose_name_csv L st node = Inr (name, n)
               \<and> newly_numbered L log st name n
               \<and> markup_log st'
                   = markup_log st
                     @ [(name, \<lparr>created_at = now, content = json_content dumped,
                                 deleted_at = ''''\<rparr>)])" .
  fix post locked fin name n
  assume "reconcile_csv L now locked (pre @ node # post) log files = Inr fin
            \<and> choose_name_csv L st node = Inr (name, n)"
  then show "\<exists>e. map_of (markup_log fin) name = Some e
                \<and> deleted_at e = ''''
                \<and> (encode_filename (node_name node) @ ''.json'' \<notin> fst ` set (markup_log st)
                     \<longrightarrow> created_at e = now)"
    using csv_node_final [OF a1 a2 a3] by blast
next
  fix st st'
  assume "save_markup_csv L now st node = Inr st' \<and> (\<forall>dumped. node_save node \<noteq> Saved dumped)"
  then show "markup_log st' = markup_log st"
    using csv_node_not_saved by blast
next
  fix st e
  assume "save_markup_csv L now st node = Inl e"
  then show "e = ValueError" using csv_node_raises by blast
next
  fix st e
  assume "save_markup_csv L now st node = Inl e"
  then show "encode_filename (node_name node) @ ''.json'' \<notin> fst ` set (markup_log st)"
    using csv_node_raises by blast
next
  fix st e
  assume "save_markup_csv L now st node = Inl e"
  then show "over_limit L (length (str_nat (max_number st + 1)))"
    using csv_node_raises by blast
next
  fix st st'
  assume a: "after_saves_xlsx L now pre xlog files = Inr st \<and> save_markup_xlsx L now node st = Inr st'"
  then have a1: "after_saves_xlsx L now pre xlog files = Inr st"
    and a2: "save_markup_xlsx L now node st = Inr st'" by simp_all
  from xlsx_node_saved [OF a1 a2]
  show "if hit_xlsx st node
         then markup_log st' = markup_log st
              \<and> (\<exists>f. f \<in> fst ` set (markup_log st)
                     \<and> replace ''.json'' '''' f = strip (node_name node)
                     \<and> current_filenames st' = insert f (current_filenames st))
         else (\<exists>name n. current_filenames st' = insert name (current_filenames st)
                 \<and> newly_numbered L xlog st name n
                 \<and> markup_log st' =
                     (if node_save node = SaveRaisedOSError then markup_log st
                      else markup_log st @ [(name, new_entry_xlsx now (strip (node_name node)))]))" .
  fix post locked fin k
  assume "reconcile_xlsx L now locked (pre @ node # post) xlog files = Inr fin
              \<and> k \<in> current_filenames st'"
  then show "map_of (markup_log fin) k = map_of (markup_log st') k"
    using xlsx_node_final [OF a1 a2] by blast
qed

lemma ex_strip: "strip ''q r'' = ''q r''" "strip ''lesion'' = ''lesion''"
  by (simp_all add: strip_def is_space_def)

lemma ex_saved_csv:
  "save_markup_csv L ''t2'' (initial_csv L ex_markups {}) ex_new_node
     = Inr (save_node_csv ''t2'' (initial_csv L ex_markups {}) ex_new_node ''q_U_r_2.json'' 2)"
  by (simp add: save_markup_csv_def ex_choose)

theorem node_saved_new_or_existing_witness:
  "node_save ex_new_node = Saved ''{1,2}''
   \<and> after_saves_csv 4300 ''t2'' [] ex_markups {} = Inr (initial_csv 4300 ex_markups {})
   \<and> encode_filename (node_name ex_new_node) @ ''.json''
        \<notin> fst ` set (markup_log (initial_csv 4300 ex_markups {}))
   \<and> (\<exists>st'. save_markup_csv 4300 ''t2'' (initial_csv 4300 ex_markups {}) ex_new_node = Inr st'
          \<and> markup_log st'
              = ex_markups @ [(''q_U_r_2.json'',
                  \<lparr>created_at = ''t2'', content = json_content ''{1,2}'', deleted_at = ''''\<rparr>)])
   \<and> after_saves_xlsx 4300 ''t2'' [] ex_markups_x {} = Inr (initial_xlsx 4300 ex_markups_x {})
   \<and> (\<exists>st'. save_markup_xlsx 4300 ''t2'' ex_new_node (initial_xlsx 4300 ex_markups_x {}) = Inr st'
          \<and> markup_log st' = ex_markups_x @ [(''line_2.json'', new_entry_xlsx ''t2'' ''q r'')])"
proof -
  have sv: "node_save ex_new_node = Saved ''{1,2}''" by (simp add: ex_new_node_def)
  note a0 = ex_state [of 4300]
  note h = ex_fresh [of 4300]
  note ch = ex_choose [of 4300]
  note sc = ex_saved_csv [of 4300]
  have l0: "markup_log (initial_csv 4300 ex_markups {}) = ex_markups"
    by (simp add: initial_csv_def)
  have a: "after_saves_xlsx 4300 ''t2'' [] ex_markups_x {} = Inr (initial_xlsx 4300 ex_markups_x {})"
    by (simp add: after_saves_xlsx_def)
  from ex_save_xlsx obtain st' where
    s: "save_markup_xlsx 4300 ''t2'' ex_new_node (initial_xlsx 4300 ex_markups_x {}) = Inr st'" and
    c: "current_filenames st' = {''line_2.json''}"
    by blast
  have c0: "current_filenames (initial_xlsx 4300 ex_markups_x {}) = {}"
           "markup_log (initial_xlsx 4300 ex_markups_x {}) = ex_markups_x"
    by (simp_all add: initial_xlsx_def)
  have os: "node_save ex_new_node \<noteq> SaveRaisedOSError" "strip (node_name ex_new_node) = ''q r''"
    by (simp_all add: ex_new_node_def ex_strip)
  note t = node_saved_new_or_existing [where L = 4300 and node = ex_new_node and now = "''t2''"
             and pre = "[]" and log = ex_markups and files = "{}" and xlog = ex_markups_x]
  from t a0 sc sv have
    "if encode_filename (node_name ex_new_node) @ ''.json''
          \<in> fst ` set (markup_log (initial_csv 4300 ex_markups {}))
     then choose_name_csv 4300 (initial_csv 4300 ex_markups {}) ex_new_node
                = Inr (encode_filename (node_name ex_new_node) @ ''.json'',
                       max_number (initial_csv 4300 ex_markups {}))
            \<and> markup_log (save_node_csv ''t2'' (initial_csv 4300 ex_markups {}) ex_new_node ''q_U_r_2.json'' 2)
                = AList.map_entry (encode_filename (node_name ex_new_node) @ ''.json'')
                    (\<lambda>e. e\<lparr>content := json_content ''{1,2}'', deleted_at := ''''\<rparr>)
                    (markup_log (initial_csv 4300 ex_markups {}))
            \<and> map fst (markup_log (save_node_csv ''t2'' (initial_csv 4300 ex_markups {}) ex_new_node ''q_U_r_2.json'' 2))
                = map fst (markup_log (initial_csv 4300 ex_markups {}))
     else (\<exists>name n. choose_name_csv 4300 (initial_csv 4300 ex_markups {}) ex_new_node = Inr (name, n)
               \<and> newly_numbered 4300 ex_markups (initial_csv 4300 ex_markups {}) name n
               \<and> markup_log (save_node_csv ''t2'' (initial_csv 4300 ex_markups {}) ex_new_node ''q_U_r_2.json'' 2)
                   = markup_log (initial_csv 4300 ex_markups {})
                     @ [(name, \<lparr>created_at = ''t2'', content = json_content ''{1,2}'',
                                 deleted_at = ''''\<rparr>)])"
    by blast
  with h ch l0 have r1: "markup_log (save_node_csv ''t2'' (initial_csv 4300 ex_markups {}) ex_new_node ''q_U_r_2.json'' 2)
       = ex_markups @ [(''q_U_r_2.json'',
                        \<lparr>created_at = ''t2'', content = json_content ''{1,2}'', deleted_at = ''''\<rparr>)]"
    by auto
  from t a s have "if hit_xlsx (initial_xlsx 4300 ex_markups_x {}) ex_new_node
         then markup_log st' = markup_log (initial_xlsx 4300 ex_markups_x {})
              \<and> (\<exists>f. f \<in> fst ` set (markup_log (initial_xlsx 4300 ex_markups_x {}))
                     \<and> replace ''.json'' '''' f = strip (node_name ex_new_node)
                     \<and> current_filenames st' = insert f (current_filenames (initial_xlsx 4300 ex_markups_x {})))
         else (\<exists>name n. current_filenames st' = insert name (current_filenames (initial_xlsx 4300 ex_markups_x {}))
                 \<and> newly_numbered 4300 ex_markups_x (initial_xlsx 4300 ex_markups_x {}) name n
                 \<and> markup_log st' =
                     (if node_save ex_new_node = SaveRaisedOSError then markup_log (initial_xlsx 4300 ex_markups_x {})
                      else markup_log (initial_xlsx 4300 ex_markups_x {})
                           @ [(name, new_entry_xlsx ''t2'' (strip (node_name ex_new_node)))]))"
    by blast
  with ex_miss os c c0 have r2: "markup_log st' = ex_markups_x @ [(''line_2.json'', new_entry_xlsx ''t2'' ''q r'')]"
    by auto
  from sc r1 have e1: "\<exists>st'. save_markup_csv 4300 ''t2'' (initial_csv 4300 ex_markups {}) ex_new_node = Inr st'
          \<and> markup_log st'
              = ex_markups @ [(''q_U_r_2.json'',
                  \<lparr>created_at = ''t2'', content = json_content ''{1,2}'', deleted_at = ''''\<rparr>)]"
    by blast
  from s r2 have e2: "\<exists>st'. save_markup_xlsx 4300 ''t2'' ex_new_node (initial_xlsx 4300 ex_markups_x {}) = Inr st'
          \<and> markup_log st' = ex_markups_x @ [(''line_2.json'', new_entry_xlsx ''t2'' ''q r'')]"
    by blast
  show ?thesis
    by (intro conjI) (rule sv a0 h e1 a e2)+
qed

theorem node_saved_counterexample:
  "encode_filename (node_name ex_failed_node) @ ''.json'' \<notin> fst ` set ex_markups
   \<and> (case reconcile_csv 4300 ''t2'' {} [ex_failed_node] ex_markups {} of
         Inr fin \<Rightarrow> map fst (markup_log fin)
       | Inl e \<Rightarrow> [])
       = [''a_1.json'', ''b.json'']
   \<and> replace ''.json'' '''' ''lesion.json'' = strip (node_name ex_lesion_node)
   \<and> map_of ex_markups_x ''lesion.json''
       = Some \<lparr>report_content = Some ''x'', original_filename = None,
               created_at_x = Some ''t0'', deleted_at_x = Some ''t1''\<rparr>
   \<and> (case reconcile_xlsx 4300 ''t2'' {} [ex_lesion_node] ex_markups_x {} of
         Inr fin \<Rightarrow> map_of (markup_log fin) ''lesion.json''
       | Inl e \<Rightarrow> None)
       = Some \<lparr>report_content = Some ''x'', original_filename = None,
               created_at_x = Some ''t0'', deleted_at_x = Some ''t1''\<rparr>"
proof -
  have a: "encode_filename (node_name ex_failed_node) @ ''.json'' \<notin> fst ` set ex_markups"
    by (simp add: ex_failed_node_def ex_encode ex_markups_def)
  have f: "csv_fits 4300 (initial_csv 4300 ex_markups {}) ex_failed_node"
    using ex_writable [of 4300] by (simp add: csv_fits_def initial_csv_def ex_max)
  have b: "(case reconcile_csv 4300 ''t2'' {} [ex_failed_node] ex_markups {} of
         Inr fin \<Rightarrow> map fst (markup_log fin)
       | Inl e \<Rightarrow> [])
       = [''a_1.json'', ''b.json'']"
    using f
    by (simp add: reconcile_csv_def save_markup_csv_cases detect_deleted_csv_def detect_deleted_keys
          csv_step_log ex_failed_node_def initial_csv_def ex_markups_def)
  have c: "replace ''.json'' '''' ''lesion.json'' = strip (node_name ex_lesion_node)"
    by (simp add: ex_lesion_node_def ex_strip startswith_def)
  have d: "map_of ex_markups_x ''lesion.json''
       = Some \<lparr>report_content = Some ''x'', original_filename = None,
               created_at_x = Some ''t0'', deleted_at_x = Some ''t1''\<rparr>"
    by (simp add: ex_markups_x_def new_entry_xlsx_def)
  have e: "(case reconcile_xlsx 4300 ''t2'' {} [ex_lesion_node] ex_markups_x {} of
         Inr fin \<Rightarrow> map_of (markup_log fin) ''lesion.json''
       | Inl e \<Rightarrow> None)
       = Some \<lparr>report_content = Some ''x'', original_filename = None,
               created_at_x = Some ''t0'', deleted_at_x = Some ''t1''\<rparr>"
    by (simp add: reconcile_xlsx_def save_markup_xlsx_def existing_file_xlsx_def
          save_existing_xlsx_def ex_lesion_node_def ex_strip initial_xlsx_def ex_markups_x_def
          new_entry_xlsx_def startswith_def detect_deleted_xlsx_def detect_deleted_def
          deleted_files_def mark_deleted_def Let_def)
  show ?thesis by (intro conjI) (rule a b c d e)+
qed

end

